theory Spec2Isabelle
  imports Main "HOL-Library.Sublist"
begin

section \<open>Data model\<close>

text \<open>
  The embedding follows \<^verbatim>\<open>app/lib/runtime/action-runner.ts\<close> (class \<^verbatim>\<open>ActionRunner\<close>)
  and the artifact part of the workbench store (\<^verbatim>\<open>addArtifact\<close>, \<^verbatim>\<open>updateArtifact\<close>).

  A value thrown in JavaScript is either an \<^verbatim>\<open>Error\<close> object carrying a message or some
  other value; \<^verbatim>\<open>#executeAction\<close> tells the two apart
  (\<^verbatim>\<open>error instanceof Error ? error.message : 'Action failed'\<close>).
\<close>

datatype thrown = Error string | NonError

fun error_message :: "thrown \<Rightarrow> string" where
  "error_message (Error m) = m"
| "error_message NonError = ''Action failed''"

text \<open>
  Modelled from the spec: \<^verbatim>\<open>~/utils/unreachable\<close> is not among the sources. The spec says a
  run for an unknown id "fails" (unrecoverable); the model throws an \<^verbatim>\<open>Error\<close> with the given
  message.
\<close>

definition unreachable :: "string \<Rightarrow> thrown" where
  "unreachable message = Error message"

text \<open>
  \<^verbatim>\<open>BoltAction\<close> (declared in \<^verbatim>\<open>~/types/actions\<close>, not among the sources) is a union tagged by
  \<^verbatim>\<open>type\<close>; the fields are those the handlers read: \<^verbatim>\<open>content\<close> for a shell action,
  \<^verbatim>\<open>filePath\<close> and \<^verbatim>\<open>content\<close> for a file action, \<^verbatim>\<open>targetPath\<close>, \<^verbatim>\<open>files\<close> (pairs of
  path and content) and the optional \<^verbatim>\<open>postImportCommands\<close> for an import action.
\<close>

datatype bolt_action =
    ShellAction string
  | FileAction string string
  | ImportAction string "(string \<times> string) list" "string list option"

datatype action_status = Pending | Running | Complete | Aborted | Failed

text \<open>
  \<^verbatim>\<open>ActionState\<close>: the descriptor's fields, \<^verbatim>\<open>status\<close>, \<^verbatim>\<open>executed\<close>, the abort signal and,
  once failed, \<^verbatim>\<open>error\<close>. The field \<open>aborted\<close> is \<^verbatim>\<open>abortSignal.aborted\<close>: the signal
  object is created once in \<^verbatim>\<open>addAction\<close> and every copy of the record shares it, so the flag
  is read from the store. The closure \<^verbatim>\<open>abort\<close> is the operation \<open>abort\<close> below.
\<close>

record action_state =
  descriptor :: bolt_action
  status :: action_status
  executed :: bool
  aborted :: bool
  error :: "string option"

type_synonym action_id = string

subsection \<open>Promises\<close>

text \<open>
  \<^verbatim>\<open>#currentExecutionPromise\<close> is a JavaScript promise. The runner attaches three kinds of
  reaction to promises:
  \<^item> \<open>MarkRunning id\<close>: \<^verbatim>\<open>.then(() => this.#updateAction(actionId, {status: 'running'}))\<close>
    of \<^verbatim>\<open>addAction\<close> (the promise it derives is dropped);
  \<^item> \<open>ThenExecute id q\<close>: \<^verbatim>\<open>.then(() => this.#executeAction(actionId))\<close> of \<^verbatim>\<open>runAction\<close>,
    deriving promise \<open>q\<close>;
  \<^item> \<open>CatchLog p\<close>: \<^verbatim>\<open>.catch((error) => console.error(...))\<close> of \<^verbatim>\<open>runAction\<close>, deriving
    promise \<open>p\<close>, the new \<^verbatim>\<open>#currentExecutionPromise\<close>.
  A promise is unsettled, holding its reactions in the order they were attached, or
  settled. When it settles its reactions become microtasks, in order; a reaction attached
  to a settled promise becomes a microtask at once. Promises are numbered by allocation.
\<close>

datatype reaction = MarkRunning action_id | ThenExecute action_id nat | CatchLog nat

datatype promise = Unsettled "reaction list" | Fulfilled | Rejected thrown

text \<open>A microtask is a reaction with the settlement it reacts to: \<open>None\<close> for fulfilled.\<close>

type_synonym microtask = "reaction \<times> thrown option"

text \<open>
  The runner: the action store, the promises it has allocated,
  \<^verbatim>\<open>#currentExecutionPromise\<close>, the microtasks not yet run, and the invocations of
  \<^verbatim>\<open>#executeAction\<close> suspended in a handler (the action id, the record's descriptor read at
  the start, and the promise the invocation settles).
\<close>

record action_runner =
  actions :: "action_id \<rightharpoonup> action_state"
  promises :: "promise list"
  currentExecutionPromise :: nat
  microtasks :: "microtask list"
  in_flight :: "(action_id \<times> bolt_action \<times> nat) list"

definition new_runner :: action_runner where
  "new_runner = \<lparr>actions = Map.empty, promises = [Fulfilled],
     currentExecutionPromise = 0, microtasks = [], in_flight = []\<rparr>"

definition then_attach :: "nat \<Rightarrow> reaction \<Rightarrow> action_runner \<Rightarrow> action_runner" where
  "then_attach p r s =
     (if p < length (promises s) then
        (case promises s ! p of
           Unsettled rs \<Rightarrow> s\<lparr>promises := (promises s)[p := Unsettled (rs @ [r])]\<rparr>
         | Fulfilled \<Rightarrow> s\<lparr>microtasks := microtasks s @ [(r, None)]\<rparr>
         | Rejected e \<Rightarrow> s\<lparr>microtasks := microtasks s @ [(r, Some e)]\<rparr>)
      else s)"

definition settle_promise :: "nat \<Rightarrow> thrown option \<Rightarrow> action_runner \<Rightarrow> action_runner" where
  "settle_promise p outcome s =
     (if p < length (promises s) then
        (case promises s ! p of
           Unsettled rs \<Rightarrow>
             s\<lparr>promises := (promises s)[p := (case outcome of None \<Rightarrow> Fulfilled | Some e \<Rightarrow> Rejected e)],
               microtasks := microtasks s @ map (\<lambda>r. (r, outcome)) rs\<rparr>
         | _ \<Rightarrow> s)
      else s)"

section \<open>The sandbox\<close>

text \<open>
  The WebContainer is external. Its answers are parameters: whether \<^verbatim>\<open>fs.mkdir\<close> and
  \<^verbatim>\<open>fs.writeFile\<close> fail on a path, and how the process spawned for a command behaves.
  A process exits with a code before or after the handler's 5000 ms timer, never exits,
  or cannot be spawned. \<open>world\<close> records what the engine has done through the capability:
  the files written, the folders created and the commands spawned, in order.
\<close>

datatype timing = BeforeTimeout | AfterTimeout

datatype process = SpawnFails thrown | Exits timing int | NeverExits

record sandbox =
  mkdir_error :: "string \<Rightarrow> thrown option"
  writeFile_error :: "string \<Rightarrow> thrown option"
  spawn :: "string \<Rightarrow> process"

record world =
  files :: "string \<rightharpoonup> string"
  folders :: "string set"
  spawned :: "string list"

datatype completion = Returns | Throws thrown | NeverSettles

definition mkdir :: "sandbox \<Rightarrow> string \<Rightarrow> world \<Rightarrow> completion \<times> world" where
  "mkdir sb p w =
     (case mkdir_error sb p of
        Some e \<Rightarrow> (Throws e, w)
      | None \<Rightarrow> (Returns, w\<lparr>folders := insert p (folders w)\<rparr>))"

definition writeFile :: "sandbox \<Rightarrow> string \<Rightarrow> string \<Rightarrow> world \<Rightarrow> completion \<times> world" where
  "writeFile sb p c w =
     (case writeFile_error sb p of
        Some e \<Rightarrow> (Throws e, w)
      | None \<Rightarrow> (Returns, w\<lparr>files := (files w)(p \<mapsto> c)\<rparr>))"

section \<open>Strings and paths\<close>

text \<open>\<^verbatim>\<open>String.prototype.includes\<close>.\<close>

fun includes_str :: "string \<Rightarrow> string \<Rightarrow> bool" where
  "includes_str [] sub = (sub = [])"
| "includes_str (c # cs) sub = (prefix sub (c # cs) \<or> includes_str cs sub)"

text \<open>The decimal text of a number, as a template literal gives it for an integer.\<close>

definition digit_char :: "nat \<Rightarrow> char" where
  "digit_char n = ''0123456789'' ! (n mod 10)"

fun decimal_digits :: "nat \<Rightarrow> nat list" where
  "decimal_digits n = (n mod 10) # (if n div 10 = 0 then [] else decimal_digits (n div 10))"

definition number_text :: "int \<Rightarrow> string" where
  "number_text x =
     (let ds = map digit_char (rev (decimal_digits (nat \<bar>x\<bar>)))
      in if 0 \<le> x then ds else CHR ''-'' # ds)"

text \<open>
  \<^verbatim>\<open>nodePath.dirname\<close> (POSIX): scanning from the end down to index 1, trailing slashes are
  skipped, then the last component, and the path is cut at the slash before it.
\<close>

definition dirname :: "string \<Rightarrow> string" where
  "dirname path =
     (if path = [] then ''.''
      else
        let hasRoot = (hd path = CHR ''/'');
            r = dropWhile (\<lambda>c. c \<noteq> CHR ''/'') (dropWhile (\<lambda>c. c = CHR ''/'') (rev (tl path)));
            end_ix = length r
        in if r = [] then (if hasRoot then ''/'' else ''.'')
           else if hasRoot \<and> end_ix = 1 then ''//''
           else take end_ix path)"

text \<open>\<^verbatim>\<open>folder.replace(/\/+$/g, '')\<close>.\<close>

definition strip_trailing_slashes :: "string \<Rightarrow> string" where
  "strip_trailing_slashes s = rev (dropWhile (\<lambda>c. c = CHR ''/'') (rev s))"

section \<open>The handlers\<close>

text \<open>
  \<^verbatim>\<open>#runShellAction\<close>. \<^verbatim>\<open>Promise.race\<close> of the exit against the timer: the timer resolves
  with 0 after 5000 ms only when the command includes \<^verbatim>\<open>next dev\<close> or \<^verbatim>\<open>npm\<close>, and never
  resolves otherwise. The listener that kills the process on abort acts on the process,
  whose behaviour is a parameter here; the handler itself never reads the signal.
\<close>

definition race_exit :: "string \<Rightarrow> timing \<Rightarrow> int \<Rightarrow> int" where
  "race_exit content t code =
     (case t of
        BeforeTimeout \<Rightarrow> code
      | AfterTimeout \<Rightarrow>
          if includes_str content ''next dev'' \<or> includes_str content ''npm'' then 0 else code)"

definition shell_exit :: "string \<Rightarrow> int \<Rightarrow> completion" where
  "shell_exit content exitCode =
     (if exitCode \<noteq> 0 \<and> \<not> includes_str content ''next dev''
      then Throws (Error (''Process failed with exit code '' @ number_text exitCode))
      else Returns)"

definition runShellAction :: "sandbox \<Rightarrow> string \<Rightarrow> world \<Rightarrow> completion \<times> world" where
  "runShellAction sb content w =
     (case spawn sb content of
        SpawnFails e \<Rightarrow> (Throws e, w)
      | Exits t code \<Rightarrow>
          (shell_exit content (race_exit content t code), w\<lparr>spawned := spawned w @ [content]\<rparr>)
      | NeverExits \<Rightarrow>
          (if includes_str content ''next dev'' \<or> includes_str content ''npm''
           then shell_exit content 0 else NeverSettles,
           w\<lparr>spawned := spawned w @ [content]\<rparr>))"

text \<open>\<^verbatim>\<open>#runFileAction\<close>: both \<^verbatim>\<open>try\<close> blocks only log what they catch.\<close>

definition runFileAction :: "sandbox \<Rightarrow> bolt_action \<Rightarrow> world \<Rightarrow> completion \<times> world" where
  "runFileAction sb a w =
     (case a of
        FileAction filePath content \<Rightarrow>
          let folder = strip_trailing_slashes (dirname filePath);
              w1 = (if folder \<noteq> ''.'' then snd (mkdir sb folder w) else w);
              w2 = snd (writeFile sb filePath content w1)
          in (Returns, w2)
      | _ \<Rightarrow> (Throws (unreachable ''Expected file action''), w))"

text \<open>\<^verbatim>\<open>#importRepository\<close>: the loop over \<^verbatim>\<open>action.files\<close>.\<close>

fun import_files :: "sandbox \<Rightarrow> string \<Rightarrow> (string \<times> string) list \<Rightarrow> world \<Rightarrow> completion \<times> world" where
  "import_files sb folder [] w = (Returns, w)"
| "import_files sb folder ((p, c) # rest) w =
     (let filePath = folder @ ''/'' @ p;
          fileDir = dirname filePath
      in case (if fileDir \<noteq> ''.'' then mkdir sb fileDir w else (Returns, w)) of
           (Returns, w1) \<Rightarrow>
             (case writeFile sb filePath c w1 of
                (Returns, w2) \<Rightarrow> import_files sb folder rest w2
              | r \<Rightarrow> r)
         | r \<Rightarrow> r)"

text \<open>The loop over \<^verbatim>\<open>action.postImportCommands\<close>: \<^verbatim>\<open>await process.exit\<close>, no timer.\<close>

fun post_import :: "sandbox \<Rightarrow> string list \<Rightarrow> world \<Rightarrow> completion \<times> world" where
  "post_import sb [] w = (Returns, w)"
| "post_import sb (command # rest) w =
     (case spawn sb command of
        SpawnFails e \<Rightarrow> (Throws e, w)
      | NeverExits \<Rightarrow> (NeverSettles, w\<lparr>spawned := spawned w @ [command]\<rparr>)
      | Exits t exitCode \<Rightarrow>
          if exitCode \<noteq> 0
          then (Throws (Error (''Post-import command failed: '' @ command)),
                w\<lparr>spawned := spawned w @ [command]\<rparr>)
          else post_import sb rest (w\<lparr>spawned := spawned w @ [command]\<rparr>))"

definition importRepository :: "sandbox \<Rightarrow> bolt_action \<Rightarrow> world \<Rightarrow> completion \<times> world" where
  "importRepository sb a w =
     (case a of
        ImportAction targetPath fs postImportCommands \<Rightarrow>
          let folder = (if targetPath = [] then ''.'' else targetPath)
          in (case (if folder \<noteq> ''.'' then mkdir sb folder w else (Returns, w)) of
                (Returns, w1) \<Rightarrow>
                  (case import_files sb folder fs w1 of
                     (Returns, w2) \<Rightarrow>
                       (case postImportCommands of
                          None \<Rightarrow> (Returns, w2)
                        | Some cmds \<Rightarrow> post_import sb cmds w2)
                   | r \<Rightarrow> r)
              | r \<Rightarrow> r)
      | _ \<Rightarrow> (Throws (unreachable ''Expected import action''), w))"

text \<open>The \<^verbatim>\<open>switch (action.type)\<close> of \<^verbatim>\<open>#executeAction\<close>.\<close>

definition run_handler :: "sandbox \<Rightarrow> bolt_action \<Rightarrow> world \<Rightarrow> completion \<times> world" where
  "run_handler sb a w =
     (case a of
        ShellAction content \<Rightarrow> runShellAction sb content w
      | FileAction filePath content \<Rightarrow> runFileAction sb a w
      | ImportAction targetPath fs cmds \<Rightarrow> importRepository sb a w)"

section \<open>The runner\<close>

text \<open>
  \<^verbatim>\<open>#updateAction(id, newState)\<close>: \<^verbatim>\<open>setKey(id, {...actions[id], ...newState})\<close>, the
  update given as a function on the record. Every id the runner updates has a record:
  \<^verbatim>\<open>runAction\<close> and \<^verbatim>\<open>abort\<close> update the record they have just read, and the ids in
  microtasks and in flight were added before (lemma \<open>records_exist\<close> below). So the
  branch for a missing record is never taken in a run; there the model leaves the store
  as it is.
\<close>

definition updateAction :: "action_id \<Rightarrow> (action_state \<Rightarrow> action_state) \<Rightarrow> action_runner \<Rightarrow> action_runner" where
  "updateAction i newState s =
     (case actions s i of
        None \<Rightarrow> s
      | Some a \<Rightarrow> s\<lparr>actions := (actions s)(i \<mapsto> newState a)\<rparr>)"

definition addAction :: "action_id \<Rightarrow> bolt_action \<Rightarrow> action_runner \<Rightarrow> action_runner" where
  "addAction actionId a s =
     (case actions s actionId of
        Some _ \<Rightarrow> s
      | None \<Rightarrow>
          then_attach (currentExecutionPromise s) (MarkRunning actionId)
            (s\<lparr>actions := (actions s)(actionId \<mapsto>
                 \<lparr>descriptor = a, status = Pending, executed = False, aborted = False,
                  error = None\<rparr>)\<rparr>))"

text \<open>
  The closure \<^verbatim>\<open>abort\<close> stored in the record of \<open>actionId\<close>:
  \<^verbatim>\<open>abortController.abort(); this.#updateAction(actionId, {status: 'aborted'})\<close>.
  It exists only in a record, so there is nothing to call for an id never added.
\<close>

definition abort :: "action_id \<Rightarrow> action_runner \<Rightarrow> action_runner" where
  "abort actionId s =
     updateAction actionId (\<lambda>a. a\<lparr>status := Aborted\<rparr>)
       (updateAction actionId (\<lambda>a. a\<lparr>aborted := True\<rparr>) s)"

text \<open>
  \<^verbatim>\<open>runAction\<close> is an \<^verbatim>\<open>async\<close> function without \<^verbatim>\<open>await\<close>: the promise it returns is
  settled when the body ends, fulfilled on \<^verbatim>\<open>return\<close> or at the end, rejected by the throw
  of \<^verbatim>\<open>unreachable\<close>. The first component is that settlement (\<open>None\<close>: fulfilled).
  In \<^verbatim>\<open>{...action, ...data.action, executed: true}\<close> the fields of \<^verbatim>\<open>data.action\<close>, a
  complete \<^verbatim>\<open>BoltAction\<close>, replace the descriptor; status, signal and error stay.
\<close>

definition runAction :: "action_id \<Rightarrow> bolt_action \<Rightarrow> action_runner \<Rightarrow> thrown option \<times> action_runner" where
  "runAction actionId a s =
     (case actions s actionId of
        None \<Rightarrow> (Some (unreachable (''Action '' @ actionId @ '' not found'')), s)
      | Some act \<Rightarrow>
          if executed act then (None, s)
          else
            let s1 = updateAction actionId (\<lambda>_. act\<lparr>descriptor := a, executed := True\<rparr>) s;
                q = length (promises s1);
                p = Suc q;
                s2 = s1\<lparr>promises := promises s1 @ [Unsettled [CatchLog p], Unsettled []]\<rparr>;
                s3 = then_attach (currentExecutionPromise s2) (ThenExecute actionId q) s2
            in (None, s3\<lparr>currentExecutionPromise := p\<rparr>))"

text \<open>
  \<^verbatim>\<open>#executeAction\<close> up to the handler's first \<^verbatim>\<open>await\<close>: the record is read, the status
  set to running, and the invocation is suspended in the handler.
\<close>

definition executeAction_begin :: "action_id \<Rightarrow> nat \<Rightarrow> action_runner \<Rightarrow> action_runner" where
  "executeAction_begin actionId q s =
     (case actions s actionId of
        None \<Rightarrow> s
      | Some act \<Rightarrow>
          (updateAction actionId (\<lambda>a. a\<lparr>status := Running\<rparr>) s)
            \<lparr>in_flight := in_flight s @ [(actionId, descriptor act, q)]\<rparr>)"

text \<open>
  \<^verbatim>\<open>#executeAction\<close> after the handler: on return the status becomes aborted or complete by
  the signal, on a throw failed with the message, and the throw is passed on.
\<close>

definition executeAction_end :: "action_id \<Rightarrow> nat \<Rightarrow> completion \<Rightarrow> action_runner \<Rightarrow> action_runner" where
  "executeAction_end actionId q c s =
     (case c of
        Returns \<Rightarrow>
          settle_promise q None
            (updateAction actionId
               (\<lambda>a. a\<lparr>status := (if aborted a then Aborted else Complete)\<rparr>) s)
      | Throws e \<Rightarrow>
          settle_promise q (Some e)
            (updateAction actionId
               (\<lambda>a. a\<lparr>status := Failed, error := Some (error_message e)\<rparr>) s)
      | NeverSettles \<Rightarrow> s)"

text \<open>Running one reaction as a microtask.\<close>

fun run_reaction :: "microtask \<Rightarrow> action_runner \<Rightarrow> action_runner" where
  "run_reaction (MarkRunning i, None) s = updateAction i (\<lambda>a. a\<lparr>status := Running\<rparr>) s"
| "run_reaction (MarkRunning i, Some e) s = s"
| "run_reaction (ThenExecute i q, None) s = executeAction_begin i q s"
| "run_reaction (ThenExecute i q, Some e) s = settle_promise q (Some e) s"
| "run_reaction (CatchLog p, _) s = settle_promise p None s"

text \<open>
  What can happen to a runner: a call of \<^verbatim>\<open>addAction\<close>, \<^verbatim>\<open>runAction\<close> or of a record's
  \<^verbatim>\<open>abort\<close>, the next microtask, or the handler of the \<open>k\<close>-th suspended invocation
  finishing against the sandbox as it is then.
\<close>

datatype event =
    AddAction action_id bolt_action
  | RunAction action_id bolt_action
  | Abort action_id
  | Microtask
  | Settle nat sandbox world

fun step :: "event \<Rightarrow> action_runner \<Rightarrow> action_runner" where
  "step (AddAction i a) s = addAction i a s"
| "step (RunAction i a) s = snd (runAction i a s)"
| "step (Abort i) s = abort i s"
| "step Microtask s =
     (case microtasks s of
        [] \<Rightarrow> s
      | m # ms \<Rightarrow> run_reaction m (s\<lparr>microtasks := ms\<rparr>))"
| "step (Settle k sb w) s =
     (if k < length (in_flight s) then
        (case in_flight s ! k of
           (i, a, q) \<Rightarrow>
             (case fst (run_handler sb a w) of
                NeverSettles \<Rightarrow> s
              | c \<Rightarrow> executeAction_end i q c
                       (s\<lparr>in_flight := take k (in_flight s) @ drop (Suc k) (in_flight s)\<rparr>)))
      else s)"

fun run :: "event list \<Rightarrow> action_runner \<Rightarrow> action_runner" where
  "run [] s = s"
| "run (e # es) s = run es (step e s)"

section \<open>The artifact registry\<close>

text \<open>
  \<^verbatim>\<open>ArtifactState\<close> of the workbench store. The runner of an artifact is an object created
  by \<^verbatim>\<open>new ActionRunner(webcontainer)\<close>; the store \<open>runners\<close> holds the instances in the
  order they were created and a record refers to its runner by position.
\<close>

record artifact_state =
  artifact_id :: string
  title :: string
  closed :: bool
  runner :: nat

record workbench =
  artifacts :: "string \<rightharpoonup> artifact_state"
  artifactIdList :: "string list"
  runners :: "action_runner list"

definition addArtifact :: "string \<Rightarrow> string \<Rightarrow> string \<Rightarrow> workbench \<Rightarrow> workbench" where
  "addArtifact messageId ttl ident wb =
     (case artifacts wb messageId of
        Some _ \<Rightarrow> wb
      | None \<Rightarrow>
          wb\<lparr>artifactIdList :=
               (if messageId \<in> set (artifactIdList wb) then artifactIdList wb
                else artifactIdList wb @ [messageId]),
             artifacts := (artifacts wb)(messageId \<mapsto>
               \<lparr>artifact_id = ident, title = ttl, closed = False, runner = length (runners wb)\<rparr>),
             runners := runners wb @ [new_runner]\<rparr>)"

text \<open>\<^verbatim>\<open>updateArtifact\<close> with a \<^verbatim>\<open>Partial<ArtifactUpdateState>\<close>: each field may be absent.\<close>

definition updateArtifact :: "string \<Rightarrow> string option \<times> bool option \<Rightarrow> workbench \<Rightarrow> workbench" where
  "updateArtifact messageId state wb =
     (case artifacts wb messageId of
        None \<Rightarrow> wb
      | Some artifact \<Rightarrow>
          wb\<lparr>artifacts := (artifacts wb)(messageId \<mapsto>
               artifact\<lparr>title := (case fst state of None \<Rightarrow> title artifact | Some t \<Rightarrow> t),
                        closed := (case snd state of None \<Rightarrow> closed artifact | Some c \<Rightarrow> c)\<rparr>)\<rparr>)"

text \<open>
  The store's \<^verbatim>\<open>addAction\<close> and \<^verbatim>\<open>runAction\<close> route to the artifact's runner. The first
  component is the settlement of the promise the \<^verbatim>\<open>async\<close> method returns. \<^verbatim>\<open>runAction\<close>
  awaits the runner's promise inside \<^verbatim>\<open>try\<close>/\<^verbatim>\<open>catch\<close> and only logs what it catches.
\<close>

definition workbench_addAction ::
  "string \<Rightarrow> action_id \<Rightarrow> bolt_action \<Rightarrow> workbench \<Rightarrow> thrown option \<times> workbench" where
  "workbench_addAction messageId actionId a wb =
     (case artifacts wb messageId of
        None \<Rightarrow> (Some (unreachable ''Artifact not found''), wb)
      | Some artifact \<Rightarrow>
          (None, wb\<lparr>runners := (runners wb)[runner artifact :=
                      addAction actionId a (runners wb ! runner artifact)]\<rparr>))"


definition new_workbench :: workbench where
  "new_workbench = \<lparr>artifacts = Map.empty, artifactIdList = [], runners = []\<rparr>"

section \<open>Concrete sandboxes\<close>

text \<open>A sandbox in which every file operation fails and every process exits with code 1.\<close>

definition failing_sandbox :: sandbox where
  "failing_sandbox = \<lparr>mkdir_error = (\<lambda>_. Some (Error ''EIO'')),
     writeFile_error = (\<lambda>_. Some (Error ''EIO'')), spawn = (\<lambda>_. Exits BeforeTimeout 1)\<rparr>"

text \<open>A sandbox in which every file operation succeeds and every process exits with code 0.\<close>

definition working_sandbox :: sandbox where
  "working_sandbox = \<lparr>mkdir_error = (\<lambda>_. None),
     writeFile_error = (\<lambda>_. None), spawn = (\<lambda>_. Exits BeforeTimeout 0)\<rparr>"

definition empty_world :: world where
  "empty_world = \<lparr>files = Map.empty, folders = {}, spawned = []\<rparr>"

section \<open>Notions used in the statements\<close>

text \<open>
  A file of an import can be written: the \<^verbatim>\<open>mkdir\<close> of its directory (skipped for
  \<^verbatim>\<open>.\<close>) and its \<^verbatim>\<open>writeFile\<close> both succeed. A post-import command succeeds: its process
  exits with code 0. \<open>written folder fs\<close> is what a completed loop over \<open>fs\<close> leaves:
  each path with the content written last.
\<close>

definition file_ok :: "sandbox \<Rightarrow> string \<Rightarrow> string \<times> string \<Rightarrow> bool" where
  "file_ok sb folder f =
     (let filePath = folder @ ''/'' @ fst f; fileDir = dirname filePath
      in (fileDir = ''.'' \<or> mkdir_error sb fileDir = None) \<and> writeFile_error sb filePath = None)"

definition command_ok :: "sandbox \<Rightarrow> string \<Rightarrow> bool" where
  "command_ok sb c = (spawn sb c = Exits BeforeTimeout 0 \<or> spawn sb c = Exits AfterTimeout 0)"

definition written :: "string \<Rightarrow> (string \<times> string) list \<Rightarrow> (string \<rightharpoonup> string)" where
  "written folder fs = map_of (rev (map (\<lambda>f. (folder @ ''/'' @ fst f, snd f)) fs))"

text \<open>A sandbox whose \<^verbatim>\<open>mkdir\<close> fails on \<^verbatim>\<open>proj/sub\<close> and whose \<^verbatim>\<open>npm test\<close> exits with code 2.\<close>

definition sub_fails :: sandbox where
  "sub_fails = \<lparr>mkdir_error = (\<lambda>p. if p = ''proj/sub'' then Some (Error ''EIO'') else None),
     writeFile_error = (\<lambda>_. None), spawn = (\<lambda>c. Exits BeforeTimeout (if c = ''npm test'' then 2 else 0))\<rparr>"

definition two_files :: bolt_action where
  "two_files = ImportAction ''proj'' [(''a.txt'', ''A''), (''sub/b.txt'', ''B'')] (Some [''npm test'', ''ls''])"
definition one_file :: bolt_action where
  "one_file = ImportAction ''proj'' [(''a.txt'', ''A'')] (Some [''true'', ''npm test'', ''ls''])"

section \<open>The execution chain\<close>

text \<open>
  What the runner is seen to do in a step: \<open>dispatches\<close> is the id whose execution a call
  of \<^verbatim>\<open>runAction\<close> appends to the chain (the record exists and is not yet executed),
  \<open>begins\<close> the id whose \<^verbatim>\<open>#executeAction\<close> a microtask starts, \<open>finishes\<close> the id
  whose handler settles. \<open>dispatched\<close>, \<open>began\<close> and \<open>finished\<close> collect them along a
  run, in order.
\<close>

fun dispatches :: "event \<Rightarrow> action_runner \<Rightarrow> action_id list" where
  "dispatches (RunAction i a) s =
     (case actions s i of
        None \<Rightarrow> []
      | Some act \<Rightarrow> if executed act then [] else [i])"
| "dispatches _ s = []"

fun begins :: "event \<Rightarrow> action_runner \<Rightarrow> action_id list" where
  "begins Microtask s =
     (case microtasks s of
        (ThenExecute i q, None) # ms \<Rightarrow> (if actions s i = None then [] else [i])
      | _ \<Rightarrow> [])"
| "begins _ s = []"


fun dispatched :: "event list \<Rightarrow> action_runner \<Rightarrow> action_id list" where
  "dispatched [] s = []"
| "dispatched (e # es) s = dispatches e s @ dispatched es (step e s)"

fun began :: "event list \<Rightarrow> action_runner \<Rightarrow> action_id list" where
  "began [] s = []"
| "began (e # es) s = begins e s @ began es (step e s)"


text \<open>
  The pending work of a runner, read off its promises as a queue of tasks: a scheduled
  running-update or an execution. \<open>linked ps cur p ts\<close>: from the unsettled promise \<open>p\<close>
  up to \<^verbatim>\<open>#currentExecutionPromise\<close> \<open>cur\<close> the reactions form the queue \<open>ts\<close>; each
  promise but the last carries running-updates and then one execution, whose derived
  promise carries the \<^verbatim>\<open>catch\<close> that leads to the next.
\<close>

datatype task = TMark action_id | TExec action_id

inductive linked :: "promise list \<Rightarrow> nat \<Rightarrow> nat \<Rightarrow> task list \<Rightarrow> bool" for ps cur where
  last: "cur < length ps \<Longrightarrow> ps ! cur = Unsettled (map MarkRunning ms) \<Longrightarrow>
     linked ps cur cur (map TMark ms)"
| link: "p < q \<Longrightarrow> q < p' \<Longrightarrow>
     ps ! p = Unsettled (map MarkRunning ms @ [ThenExecute x q]) \<Longrightarrow>
     ps ! q = Unsettled [CatchLog p'] \<Longrightarrow> linked ps cur p' ts \<Longrightarrow>
     linked ps cur p (map TMark ms @ TExec x # ts)"

definition marks :: "action_id list \<Rightarrow> microtask list" where
  "marks ms = map (\<lambda>x. (MarkRunning x, None)) ms"

text \<open>
  The four shapes of a runner with pending queue \<open>ts\<close>: idle (the current promise is
  fulfilled, only running-updates wait as microtasks); the reactions of a fulfilled
  promise wait as microtasks, the last of them an execution; a handler is in flight; a
  handler has settled and the \<^verbatim>\<open>catch\<close> waits as a microtask.
\<close>

inductive shape :: "action_runner \<Rightarrow> task list \<Rightarrow> bool" where
  idle: "in_flight s = [] \<Longrightarrow> currentExecutionPromise s < length (promises s) \<Longrightarrow>
     promises s ! currentExecutionPromise s = Fulfilled \<Longrightarrow> microtasks s = marks ms \<Longrightarrow>
     shape s (map TMark ms)"
| flushed: "in_flight s = [] \<Longrightarrow> microtasks s = marks ms @ [(ThenExecute x q, None)] \<Longrightarrow>
     q < p \<Longrightarrow> promises s ! q = Unsettled [CatchLog p] \<Longrightarrow>
     linked (promises s) (currentExecutionPromise s) p ts \<Longrightarrow>
     shape s (map TMark ms @ TExec x # ts)"
| running: "in_flight s = [(x, a, q)] \<Longrightarrow> microtasks s = [] \<Longrightarrow>
     q < p \<Longrightarrow> promises s ! q = Unsettled [CatchLog p] \<Longrightarrow>
     linked (promises s) (currentExecutionPromise s) p ts \<Longrightarrow>
     shape s ts"
| settled: "in_flight s = [] \<Longrightarrow> microtasks s = [(CatchLog p, out)] \<Longrightarrow>
     linked (promises s) (currentExecutionPromise s) p ts \<Longrightarrow>
     shape s ts"

text \<open>How a step changes the queue.\<close>

fun next_tasks :: "event \<Rightarrow> action_runner \<Rightarrow> task list \<Rightarrow> task list" where
  "next_tasks (AddAction i a) s ts = (if actions s i = None then ts @ [TMark i] else ts)"
| "next_tasks (RunAction i a) s ts = ts @ map TExec (dispatches (RunAction i a) s)"
| "next_tasks Microtask s ts =
     (case microtasks s of
        (MarkRunning i, out) # ms \<Rightarrow> tl ts
      | (ThenExecute i q, out) # ms \<Rightarrow> tl ts
      | _ \<Rightarrow> ts)"
| "next_tasks _ s ts = ts"

text \<open>
  What \<^verbatim>\<open>runAction\<close> does to the chain when it dispatches: two promises are allocated,
  the execution is attached to the current promise, and the second new promise becomes
  the current one.
\<close>

definition dispatch :: "action_id \<Rightarrow> action_runner \<Rightarrow> action_runner" where
  "dispatch i s =
     (then_attach (currentExecutionPromise s) (ThenExecute i (length (promises s)))
        (s\<lparr>promises := promises s @
             [Unsettled [CatchLog (Suc (length (promises s)))], Unsettled []]\<rparr>))
      \<lparr>currentExecutionPromise := Suc (length (promises s))\<rparr>"

text \<open>
  The ids with a task in the queue, the executions in the queue, and the ids in flight.
\<close>

definition tasks_of :: "task list \<Rightarrow> action_id set" where
  "tasks_of ts = {i. TMark i \<in> set ts \<or> TExec i \<in> set ts}"

fun exec_ids :: "task list \<Rightarrow> action_id list" where
  "exec_ids [] = []"
| "exec_ids (TMark i # ts) = exec_ids ts"
| "exec_ids (TExec i # ts) = i # exec_ids ts"

definition flying :: "action_runner \<Rightarrow> action_id set" where
  "flying s = fst ` set (in_flight s)"

text \<open>After the execution of an id, the queue holds no further task of that id.\<close>

fun ordered :: "task list \<Rightarrow> bool" where
  "ordered [] = True"
| "ordered (TMark i # ts) = ordered ts"
| "ordered (TExec i # ts) = (i \<notin> tasks_of ts \<and> ordered ts)"

text \<open>
  The queue against the store: every id with a task or in flight has a record; a record
  not yet executed has no execution queued and is not in flight; an id in flight has no
  task queued.
\<close>

definition qinv :: "(action_id \<rightharpoonup> action_state) \<Rightarrow> task list \<Rightarrow> action_id set \<Rightarrow> bool" where
  "qinv A ts F \<longleftrightarrow>
     (\<forall>i. i \<in> tasks_of ts \<or> i \<in> F \<longrightarrow> A i \<noteq> None) \<and>
     (\<forall>i act. A i = Some act \<and> \<not> executed act \<longrightarrow> TExec i \<notin> set ts \<and> i \<notin> F) \<and>
     ordered ts \<and>
     (\<forall>i. i \<in> F \<longrightarrow> i \<notin> tasks_of ts)"

text \<open>
  The status against the queue: only a record whose signal is raised is Aborted; a record
  with a task queued, or not yet executed, is Pending, Running or Aborted; a record in
  flight is Running or Aborted.
\<close>

definition sinv :: "(action_id \<rightharpoonup> action_state) \<Rightarrow> task list \<Rightarrow> action_id set \<Rightarrow> bool" where
  "sinv A ts F \<longleftrightarrow>
     (\<forall>i act. A i = Some act \<longrightarrow>
        (status act = Aborted \<longrightarrow> aborted act) \<and>
        (i \<in> tasks_of ts \<or> \<not> executed act \<longrightarrow>
           status act = Pending \<or> status act = Running \<or> status act = Aborted) \<and>
        (i \<in> F \<longrightarrow> status act = Running \<or> status act = Aborted))"

definition runner_inv :: "action_runner \<Rightarrow> task list \<Rightarrow> bool" where
  "runner_inv s ts \<longleftrightarrow> shape s ts \<and> qinv (actions s) ts (flying s) \<and> sinv (actions s) ts (flying s)"

text \<open>The moves of the status along Pending, Running, then Complete, Aborted or Failed.\<close>

fun moves :: "action_status \<Rightarrow> action_status \<Rightarrow> bool" where
  "moves Pending Running = True"
| "moves Running Complete = True"
| "moves Running Aborted = True"
| "moves Running Failed = True"
| "moves _ _ = False"


text \<open>
  A run in which \<^verbatim>\<open>runAction\<close> is called for the same id twice before and once after its
  handler has finished.
\<close>

definition run_twice :: "event list" where
  "run_twice =
     [AddAction ''a'' (ShellAction ''ls''), RunAction ''a'' (ShellAction ''ls''),
      RunAction ''a'' (ShellAction ''ls''), Microtask, Microtask,
      Settle 0 working_sandbox empty_world, RunAction ''a'' (ShellAction ''ls''),
      Microtask, Microtask]"

section \<open>Basic facts\<close>

lemmas eval_defs = new_runner_def addAction_def runAction_def abort_def updateAction_def
  then_attach_def settle_promise_def executeAction_begin_def executeAction_end_def
  run_handler_def runShellAction_def shell_exit_def race_exit_def number_text_def
  digit_char_def failing_sandbox_def working_sandbox_def empty_world_def Let_def

lemma actions_then_attach [simp]: "actions (then_attach p r s) = actions s"
  by (simp add: then_attach_def split: promise.splits)

lemma actions_settle_promise [simp]: "actions (settle_promise p out s) = actions s"
  by (simp add: settle_promise_def split: promise.splits)

lemma actions_updateAction:
  "actions (updateAction i f s) =
     (case actions s i of None \<Rightarrow> actions s | Some a \<Rightarrow> (actions s)(i \<mapsto> f a))"
  by (simp add: updateAction_def split: option.splits)

lemma updateAction_present [simp]:
  "actions s i = Some a \<Longrightarrow> actions (updateAction i f s) = (actions s)(i \<mapsto> f a)"
  by (simp add: actions_updateAction)

lemma updateAction_other [simp]: "j \<noteq> i \<Longrightarrow> actions (updateAction i f s) j = actions s j"
  by (simp add: actions_updateAction split: option.splits)

lemma actions_executeAction_end:
  "actions s i = Some act \<Longrightarrow> c \<noteq> NeverSettles \<Longrightarrow>
   actions (executeAction_end i q c s) =
     (actions s)(i \<mapsto> (case c of
        Returns \<Rightarrow> act\<lparr>status := (if aborted act then Aborted else Complete)\<rparr>
      | Throws e \<Rightarrow> act\<lparr>status := Failed, error := Some (error_message e)\<rparr>
      | NeverSettles \<Rightarrow> act))"
  by (cases c) (simp_all add: executeAction_end_def)

lemma step_Settle_actions:
  assumes "k < length (in_flight s)" and "in_flight s ! k = (i, a, q)"
    and "actions s i = Some act" and "fst (run_handler sb a w) = c" and "c \<noteq> NeverSettles"
  shows "actions (step (Settle k sb w) s) i =
     Some (case c of
        Returns \<Rightarrow> act\<lparr>status := (if aborted act then Aborted else Complete)\<rparr>
      | Throws e \<Rightarrow> act\<lparr>status := Failed, error := Some (error_message e)\<rparr>
      | NeverSettles \<Rightarrow> act)"
  using assms by (cases c) (simp_all add: actions_executeAction_end)

text \<open>A fresh runner after an action was added, run and its handler started.\<close>

lemma run_started:
  "run [AddAction i a, RunAction i a, Microtask, Microtask] new_runner =
     \<lparr>actions = [i \<mapsto> \<lparr>descriptor = a, status = Running, executed = True, aborted = False,
         error = None\<rparr>],
      promises = [Fulfilled, Unsettled [CatchLog 2], Unsettled []], currentExecutionPromise = 2,
      microtasks = [], in_flight = [(i, a, 1)]\<rparr>"
  by (simp add: eval_defs)

section \<open>The shell handler\<close>

lemma shell_handler_exit:
  assumes "spawn sb content = Exits t code" and "code \<noteq> 0"
  shows "fst (runShellAction sb content w) =
     (if includes_str content ''next dev'' \<or> (t = AfterTimeout \<and> includes_str content ''npm'')
      then Returns
      else Throws (Error (''Process failed with exit code '' @ number_text code)))"
  using assms by (cases t) (auto simp add: runShellAction_def shell_exit_def race_exit_def)

text \<open>
  C2 (as amended). A shell action whose process exits with a nonzero code ends Failed, with
  the message \<^verbatim>\<open>Process failed with exit code <code>\<close>, unless the command includes
  \<^verbatim>\<open>next dev\<close>, or it includes \<^verbatim>\<open>npm\<close> and the exit came after the 5000 ms timer (the
  timer has then already resolved the race with 0). In these two cases the action ends
  Complete (Aborted when its signal is raised). A command that includes \<^verbatim>\<open>npm\<close> but not
  \<^verbatim>\<open>next dev\<close> and exits nonzero before the timer is Failed like any other.
\<close>

theorem shell_nonzero_exit:
  assumes "k < length (in_flight s)" and "in_flight s ! k = (i, ShellAction content, q)"
    and "actions s i = Some act" and "spawn sb content = Exits t code" and "code \<noteq> 0"
  shows "actions (step (Settle k sb w) s) i =
     Some (if includes_str content ''next dev'' \<or> (t = AfterTimeout \<and> includes_str content ''npm'')
           then act\<lparr>status := (if aborted act then Aborted else Complete)\<rparr>
           else act\<lparr>status := Failed,
                    error := Some (''Process failed with exit code '' @ number_text code)\<rparr>)"
proof -
  let ?c = "fst (run_handler sb (ShellAction content) w)"
  have c: "?c = (if includes_str content ''next dev'' \<or> (t = AfterTimeout \<and> includes_str content ''npm'')
      then Returns
      else Throws (Error (''Process failed with exit code '' @ number_text code)))"
    using shell_handler_exit [OF assms(4,5)] by (simp add: run_handler_def)
  then have "?c \<noteq> NeverSettles" by (simp split: if_splits)
  from step_Settle_actions [OF assms(1,2,3) refl this] c show ?thesis
    by (simp split: if_splits)
qed

theorem shell_nonzero_exit_witness:
  "actions (run [AddAction ''a'' (ShellAction ''false''), RunAction ''a'' (ShellAction ''false''),
      Microtask, Microtask, Settle 0 failing_sandbox empty_world] new_runner) ''a'' =
   Some \<lparr>descriptor = ShellAction ''false'', status = Failed, executed = True, aborted = False,
     error = Some ''Process failed with exit code 1''\<rparr>"
proof -
  let ?s = "run [AddAction ''a'' (ShellAction ''false''), RunAction ''a'' (ShellAction ''false''),
      Microtask, Microtask] new_runner"
  have s: "?s = \<lparr>actions = [''a'' \<mapsto> \<lparr>descriptor = ShellAction ''false'', status = Running,
         executed = True, aborted = False, error = None\<rparr>],
     promises = [Fulfilled, Unsettled [CatchLog 2], Unsettled []], currentExecutionPromise = 2,
     microtasks = [], in_flight = [(''a'', ShellAction ''false'', 1)]\<rparr>"
    by (simp add: eval_defs)
  have "actions (step (Settle 0 failing_sandbox empty_world) ?s) ''a'' =
     Some \<lparr>descriptor = ShellAction ''false'', status = Failed, executed = True, aborted = False,
       error = Some ''Process failed with exit code 1''\<rparr>"
    using shell_nonzero_exit [of 0 ?s "''a''" "''false''" 1 _ failing_sandbox BeforeTimeout 1 empty_world]
    unfolding s by (simp add: failing_sandbox_def number_text_def digit_char_def)
  then show ?thesis by simp
qed

text \<open>
  C2 as stated fails: \<^verbatim>\<open>npm install\<close> includes \<^verbatim>\<open>npm\<close>, its process exits with code 1
  before the timer, and the action ends Failed, not Complete.
\<close>

theorem npm_nonzero_exit_fails:
  "includes_str ''npm install'' ''npm'' \<and>
   spawn failing_sandbox ''npm install'' = Exits BeforeTimeout 1 \<and>
   map_option status (actions (run [AddAction ''a'' (ShellAction ''npm install''),
      RunAction ''a'' (ShellAction ''npm install''),
      Microtask, Microtask, Settle 0 failing_sandbox empty_world] new_runner) ''a'') = Some Failed"
  by (simp add: eval_defs)

section \<open>The file handler\<close>

lemma runFileAction_returns: "fst (runFileAction sb (FileAction filePath content) w) = Returns"
  by (simp add: runFileAction_def Let_def)

text \<open>
  C7. A file action never fails outward: whatever \<^verbatim>\<open>mkdir\<close> and \<^verbatim>\<open>writeFile\<close> answer,
  the handler returns normally, and the action ends Complete (Aborted when its signal is
  raised), with no error recorded.
\<close>

theorem file_action_never_fails:
  assumes "k < length (in_flight s)" and "in_flight s ! k = (i, FileAction filePath content, q)"
    and "actions s i = Some act"
  shows "fst (runFileAction sb (FileAction filePath content) w) = Returns \<and>
     actions (step (Settle k sb w) s) i =
       Some (act\<lparr>status := (if aborted act then Aborted else Complete)\<rparr>)"
proof -
  have c: "fst (run_handler sb (FileAction filePath content) w) = Returns"
    by (simp add: run_handler_def runFileAction_returns)
  from step_Settle_actions [OF assms c] runFileAction_returns show ?thesis by simp
qed

theorem file_action_never_fails_witness:
  "mkdir_error failing_sandbox ''/home/project/src'' = Some (Error ''EIO'') \<and>
   writeFile_error failing_sandbox ''/home/project/src/a.txt'' = Some (Error ''EIO'') \<and>
   actions (run [AddAction ''f'' (FileAction ''/home/project/src/a.txt'' ''hi''),
      RunAction ''f'' (FileAction ''/home/project/src/a.txt'' ''hi''),
      Microtask, Microtask, Settle 0 failing_sandbox empty_world] new_runner) ''f'' =
   Some \<lparr>descriptor = FileAction ''/home/project/src/a.txt'' ''hi'', status = Complete,
     executed = True, aborted = False, error = None\<rparr>"
proof -
  let ?a = "FileAction ''/home/project/src/a.txt'' ''hi''"
  let ?s = "run [AddAction ''f'' ?a, RunAction ''f'' ?a, Microtask, Microtask] new_runner"
  have s: "?s = \<lparr>actions = [''f'' \<mapsto> \<lparr>descriptor = ?a, status = Running,
         executed = True, aborted = False, error = None\<rparr>],
     promises = [Fulfilled, Unsettled [CatchLog 2], Unsettled []], currentExecutionPromise = 2,
     microtasks = [], in_flight = [(''f'', ?a, 1)]\<rparr>"
    by (simp add: eval_defs)
  have "actions (step (Settle 0 failing_sandbox empty_world) ?s) ''f'' =
     Some \<lparr>descriptor = ?a, status = Complete, executed = True, aborted = False, error = None\<rparr>"
    using file_action_never_fails [of 0 ?s "''f''" "''/home/project/src/a.txt''" "''hi''" 1 _
       failing_sandbox empty_world]
    unfolding s by simp
  then show ?thesis by (simp add: failing_sandbox_def)
qed

section \<open>The import handler\<close>

lemma mkdir_ok: "mkdir_error sb p = None \<Longrightarrow> mkdir sb p w = (Returns, w\<lparr>folders := insert p (folders w)\<rparr>)"
  by (simp add: mkdir_def)

lemma import_files_ok:
  "\<forall>g\<in>set fs. file_ok sb folder g \<Longrightarrow>
   \<exists>w'. import_files sb folder fs w = (Returns, w') \<and> spawned w' = spawned w \<and>
        files w' = files w ++ written folder fs"
proof (induction fs arbitrary: w)
  case Nil
  then show ?case by (simp add: written_def)
next
  case (Cons f fs)
  obtain p c where f: "f = (p, c)" by (cases f)
  let ?fp = "folder @ ''/'' @ p"
  from Cons.prems f have ok: "dirname ?fp = ''.'' \<or> mkdir_error sb (dirname ?fp) = None"
    and wr: "writeFile_error sb ?fp = None" and rest: "\<forall>g\<in>set fs. file_ok sb folder g"
    by (simp_all add: file_ok_def Let_def)
  define w1 where "w1 = (if dirname ?fp \<noteq> ''.'' then w\<lparr>folders := insert (dirname ?fp) (folders w)\<rparr> else w)"
  define w2 where "w2 = w1\<lparr>files := (files w1)(?fp \<mapsto> c)\<rparr>"
  have step: "import_files sb folder (f # fs) w = import_files sb folder fs w2"
    using ok wr by (auto simp add: f Let_def mkdir_def writeFile_def w1_def w2_def)
  from Cons.IH [OF rest, of w2] obtain w' where
    w': "import_files sb folder fs w2 = (Returns, w')" "spawned w' = spawned w2"
        "files w' = files w2 ++ written folder fs" by blast
  have "files w2 ++ written folder fs = files w ++ written folder (f # fs)"
    by (simp add: w2_def w1_def written_def f map_add_def fun_eq_iff split: option.splits)
  moreover have "spawned w2 = spawned w" by (simp add: w2_def w1_def)
  ultimately show ?case using step w' by simp
qed

lemma import_files_fail:
  assumes "\<forall>g\<in>set pre. file_ok sb folder g" and "\<not> file_ok sb folder f"
  shows "\<exists>e w'. import_files sb folder (pre @ f # rest) w = (Throws e, w') \<and>
        spawned w' = spawned w \<and> files w' = files w ++ written folder pre"
  using assms(1)
proof (induction pre arbitrary: w)
  case Nil
  obtain p c where f: "f = (p, c)" by (cases f)
  from assms(2) show ?case
    by (auto simp add: f file_ok_def Let_def mkdir_def writeFile_def written_def split: option.splits)
next
  case (Cons g pre)
  obtain p c where g: "g = (p, c)" by (cases g)
  let ?fp = "folder @ ''/'' @ p"
  from Cons.prems g have ok: "dirname ?fp = ''.'' \<or> mkdir_error sb (dirname ?fp) = None"
    and wr: "writeFile_error sb ?fp = None" and rest: "\<forall>g\<in>set pre. file_ok sb folder g"
    by (simp_all add: file_ok_def Let_def)
  define w1 where "w1 = (if dirname ?fp \<noteq> ''.'' then w\<lparr>folders := insert (dirname ?fp) (folders w)\<rparr> else w)"
  define w2 where "w2 = w1\<lparr>files := (files w1)(?fp \<mapsto> c)\<rparr>"
  have step: "import_files sb folder ((g # pre) @ f # rest) w = import_files sb folder (pre @ f # rest) w2"
    using ok wr by (auto simp add: g Let_def mkdir_def writeFile_def w1_def w2_def)
  from Cons.IH [OF rest, of w2] obtain e w' where
    w': "import_files sb folder (pre @ f # rest) w2 = (Throws e, w')" "spawned w' = spawned w2"
        "files w' = files w2 ++ written folder pre" by blast
  have "files w2 ++ written folder pre = files w ++ written folder (g # pre)"
    by (simp add: w2_def w1_def written_def g map_add_def fun_eq_iff split: option.splits)
  moreover have "spawned w2 = spawned w" by (simp add: w2_def w1_def)
  ultimately show ?case using step w' by simp
qed

lemma post_import_fail:
  assumes "\<forall>d\<in>set cpre. command_ok sb d" and "spawn sb c = Exits t code" and "code \<noteq> 0"
  shows "post_import sb (cpre @ c # crest) w =
     (Throws (Error (''Post-import command failed: '' @ c)), w\<lparr>spawned := spawned w @ cpre @ [c]\<rparr>)"
  using assms(1)
proof (induction cpre arbitrary: w)
  case Nil
  from assms(2,3) show ?case by simp
next
  case (Cons d cpre)
  then show ?case by (auto simp add: command_ok_def)
qed

lemma importRepository_base:
  assumes "folder = (if targetPath = [] then ''.'' else targetPath)"
    and "folder = ''.'' \<or> mkdir_error sb folder = None"
  shows "\<exists>w1. files w1 = files w \<and> spawned w1 = spawned w \<and>
     importRepository sb (ImportAction targetPath fs cmds) w =
       (case import_files sb folder fs w1 of
          (Returns, w2) \<Rightarrow> (case cmds of None \<Rightarrow> (Returns, w2) | Some cs \<Rightarrow> post_import sb cs w2)
        | r \<Rightarrow> r)"
proof (cases "folder = ''.''")
  case True
  with assms(1) show ?thesis
    by (intro exI [of _ w]) (simp add: importRepository_def Let_def split: if_splits)
next
  case False
  with assms have "mkdir_error sb folder = None" by simp
  with False assms(1) show ?thesis
    by (intro exI [of _ "w\<lparr>folders := insert folder (folders w)\<rparr>"])
       (simp add: importRepository_def Let_def mkdir_def split: if_splits)
qed

lemma importRepository_file_failure:
  assumes "folder = (if targetPath = [] then ''.'' else targetPath)"
    and "folder = ''.'' \<or> mkdir_error sb folder = None"
    and "\<forall>g\<in>set pre. file_ok sb folder g" and "\<not> file_ok sb folder f"
  shows "\<exists>e w'. importRepository sb (ImportAction targetPath (pre @ f # rest) cmds) w = (Throws e, w') \<and>
     files w' = files w ++ written folder pre \<and> spawned w' = spawned w"
proof -
  from importRepository_base [OF assms(1,2), of w "pre @ f # rest" cmds] obtain w1 where
    w1: "files w1 = files w" "spawned w1 = spawned w"
      "importRepository sb (ImportAction targetPath (pre @ f # rest) cmds) w =
       (case import_files sb folder (pre @ f # rest) w1 of
          (Returns, w2) \<Rightarrow> (case cmds of None \<Rightarrow> (Returns, w2) | Some cs \<Rightarrow> post_import sb cs w2)
        | r \<Rightarrow> r)" by blast
  from import_files_fail [OF assms(3,4), of rest w1] obtain e w' where
    "import_files sb folder (pre @ f # rest) w1 = (Throws e, w')"
    "spawned w' = spawned w1" "files w' = files w1 ++ written folder pre" by blast
  with w1 show ?thesis by simp
qed

lemma importRepository_command_failure:
  assumes "folder = (if targetPath = [] then ''.'' else targetPath)"
    and "folder = ''.'' \<or> mkdir_error sb folder = None"
    and "\<forall>g\<in>set fs. file_ok sb folder g"
    and "\<forall>d\<in>set cpre. command_ok sb d" and "spawn sb c = Exits t code" and "code \<noteq> 0"
  shows "\<exists>w'. importRepository sb (ImportAction targetPath fs (Some (cpre @ c # crest))) w =
       (Throws (Error (''Post-import command failed: '' @ c)), w') \<and>
     files w' = files w ++ written folder fs \<and> spawned w' = spawned w @ cpre @ [c]"
proof -
  from importRepository_base [OF assms(1,2), of w fs "Some (cpre @ c # crest)"] obtain w1 where
    w1: "files w1 = files w" "spawned w1 = spawned w"
      "importRepository sb (ImportAction targetPath fs (Some (cpre @ c # crest))) w =
       (case import_files sb folder fs w1 of
          (Returns, w2) \<Rightarrow> (case Some (cpre @ c # crest) of None \<Rightarrow> (Returns, w2)
             | Some cs \<Rightarrow> post_import sb cs w2)
        | r \<Rightarrow> r)" by blast
  from import_files_ok [OF assms(3), of w1] obtain w2 where
    w2: "import_files sb folder fs w1 = (Returns, w2)" "spawned w2 = spawned w1"
      "files w2 = files w1 ++ written folder fs" by blast
  from post_import_fail [OF assms(4,5,6), of crest w2] w1 w2 show ?thesis by simp
qed

text \<open>
  C6. An import action whose base directory could be created. (1) When the files before
  \<open>f\<close> can be written and \<open>f\<close> cannot (its \<^verbatim>\<open>mkdir\<close> or its \<^verbatim>\<open>writeFile\<close> fails), the
  handler throws, the action ends Failed, no post-import command is spawned and the files
  before \<open>f\<close> stay written. (2) When all files can be written, the post-import commands
  before \<open>c\<close> exit with 0 and \<open>c\<close> exits with a nonzero code, the handler throws, the
  action ends Failed, the commands after \<open>c\<close> are not spawned and all files stay written.
\<close>

theorem import_failure:
  assumes "k < length (in_flight s)"
    and "in_flight s ! k = (i, ImportAction targetPath fs cmds, q)"
    and "actions s i = Some act"
    and "folder = (if targetPath = [] then ''.'' else targetPath)"
    and "folder = ''.'' \<or> mkdir_error sb folder = None"
  shows
    "(\<forall>pre f rest. fs = pre @ f # rest \<and> (\<forall>g\<in>set pre. file_ok sb folder g) \<and>
        \<not> file_ok sb folder f \<longrightarrow>
        (\<exists>e w'. importRepository sb (ImportAction targetPath fs cmds) w = (Throws e, w') \<and>
           files w' = files w ++ written folder pre \<and> spawned w' = spawned w \<and>
           actions (step (Settle k sb w) s) i =
             Some (act\<lparr>status := Failed, error := Some (error_message e)\<rparr>))) \<and>
     (\<forall>cpre c crest t code. (\<forall>g\<in>set fs. file_ok sb folder g) \<and>
        cmds = Some (cpre @ c # crest) \<and> (\<forall>d\<in>set cpre. command_ok sb d) \<and>
        spawn sb c = Exits t code \<and> code \<noteq> 0 \<longrightarrow>
        (\<exists>w'. importRepository sb (ImportAction targetPath fs cmds) w =
             (Throws (Error (''Post-import command failed: '' @ c)), w') \<and>
           files w' = files w ++ written folder fs \<and> spawned w' = spawned w @ cpre @ [c] \<and>
           actions (step (Settle k sb w) s) i =
             Some (act\<lparr>status := Failed,
                       error := Some (''Post-import command failed: '' @ c)\<rparr>)))"
proof (intro conjI allI impI)
  fix pre f rest
  assume h: "fs = pre @ f # rest \<and> (\<forall>g\<in>set pre. file_ok sb folder g) \<and> \<not> file_ok sb folder f"
  from importRepository_file_failure [OF assms(4,5), of pre f rest cmds w] h obtain e w' where
    r: "importRepository sb (ImportAction targetPath fs cmds) w = (Throws e, w')"
      "files w' = files w ++ written folder pre" "spawned w' = spawned w" by auto
  then have c: "fst (run_handler sb (ImportAction targetPath fs cmds) w) = Throws e"
    by (simp add: run_handler_def)
  from step_Settle_actions [OF assms(1,2,3) c] r
  show "\<exists>e w'. importRepository sb (ImportAction targetPath fs cmds) w = (Throws e, w') \<and>
           files w' = files w ++ written folder pre \<and> spawned w' = spawned w \<and>
           actions (step (Settle k sb w) s) i =
             Some (act\<lparr>status := Failed, error := Some (error_message e)\<rparr>)"
    by simp
next
  fix cpre c crest t code
  assume h: "(\<forall>g\<in>set fs. file_ok sb folder g) \<and>
        cmds = Some (cpre @ c # crest) \<and> (\<forall>d\<in>set cpre. command_ok sb d) \<and>
        spawn sb c = Exits t code \<and> code \<noteq> 0"
  from importRepository_command_failure [OF assms(4,5), of fs cpre c t code crest w] h obtain w' where
    r: "importRepository sb (ImportAction targetPath fs cmds) w =
         (Throws (Error (''Post-import command failed: '' @ c)), w')"
      "files w' = files w ++ written folder fs" "spawned w' = spawned w @ cpre @ [c]" by auto
  then have c: "fst (run_handler sb (ImportAction targetPath fs cmds) w) =
      Throws (Error (''Post-import command failed: '' @ c))"
    by (simp add: run_handler_def)
  from step_Settle_actions [OF assms(1,2,3) c] r
  show "\<exists>w'. importRepository sb (ImportAction targetPath fs cmds) w =
             (Throws (Error (''Post-import command failed: '' @ c)), w') \<and>
           files w' = files w ++ written folder fs \<and> spawned w' = spawned w @ cpre @ [c] \<and>
           actions (step (Settle k sb w) s) i =
             Some (act\<lparr>status := Failed,
                       error := Some (''Post-import command failed: '' @ c)\<rparr>)"
    by simp
qed

theorem import_failure_witness:
  "files (snd (importRepository sub_fails two_files empty_world)) ''proj/a.txt'' = Some ''A'' \<and>
   files (snd (importRepository sub_fails two_files empty_world)) ''proj/sub/b.txt'' = None \<and>
   spawned (snd (importRepository sub_fails two_files empty_world)) = [] \<and>
   map_option status (actions (run [AddAction ''i'' two_files, RunAction ''i'' two_files,
      Microtask, Microtask, Settle 0 sub_fails empty_world] new_runner) ''i'') = Some Failed \<and>
   spawned (snd (importRepository sub_fails one_file empty_world)) = [''true'', ''npm test''] \<and>
   files (snd (importRepository sub_fails one_file empty_world)) ''proj/a.txt'' = Some ''A'' \<and>
   actions (run [AddAction ''i'' one_file, RunAction ''i'' one_file,
      Microtask, Microtask, Settle 0 sub_fails empty_world] new_runner) ''i'' =
     Some \<lparr>descriptor = one_file, status = Failed, executed = True, aborted = False,
       error = Some ''Post-import command failed: npm test''\<rparr>"
proof -
  let ?s2 = "run [AddAction ''i'' two_files, RunAction ''i'' two_files, Microtask, Microtask] new_runner"
  let ?s1 = "run [AddAction ''i'' one_file, RunAction ''i'' one_file, Microtask, Microtask] new_runner"
  let ?act = "\<lambda>a. \<lparr>descriptor = a, status = Running, executed = True, aborted = False, error = None\<rparr>"
  have p1: "0 < length (in_flight ?s2)" "0 < length (in_flight ?s1)"
    by (simp_all add: run_started del: run.simps)
  have p2: "in_flight ?s2 ! 0 = (''i'', ImportAction ''proj'' [(''a.txt'', ''A''), (''sub/b.txt'', ''B'')]
       (Some [''npm test'', ''ls'']), 1)"
    by (simp add: run_started two_files_def del: run.simps)
  have q2: "in_flight ?s1 ! 0 = (''i'', ImportAction ''proj'' [(''a.txt'', ''A'')]
       (Some [''true'', ''npm test'', ''ls'']), 1)"
    by (simp add: run_started one_file_def del: run.simps)
  have p3: "actions ?s2 ''i'' = Some (?act two_files)" "actions ?s1 ''i'' = Some (?act one_file)"
    by (simp_all add: run_started del: run.simps)
  have p4: "''proj'' = (if ''proj'' = [] then ''.'' else ''proj'')" by simp
  have p5: "''proj'' = ''.'' \<or> mkdir_error sub_fails ''proj'' = None" by (simp add: sub_fails_def)
  have ok: "file_ok sub_fails ''proj'' (''a.txt'', ''A'')"
    by (simp add: file_ok_def dirname_def sub_fails_def)
  have p6: "[(''a.txt'', ''A''), (''sub/b.txt'', ''B'')] = [(''a.txt'', ''A'')] @ (''sub/b.txt'', ''B'') # [] \<and>
     (\<forall>g\<in>set [(''a.txt'', ''A'')]. file_ok sub_fails ''proj'' g) \<and>
     \<not> file_ok sub_fails ''proj'' (''sub/b.txt'', ''B'')"
    using ok by (simp add: file_ok_def dirname_def sub_fails_def)
  have q6: "(\<forall>g\<in>set [(''a.txt'', ''A'')]. file_ok sub_fails ''proj'' g) \<and>
     Some [''true'', ''npm test'', ''ls''] = Some ([''true''] @ ''npm test'' # [''ls'']) \<and>
     (\<forall>d\<in>set [''true'']. command_ok sub_fails d) \<and>
     spawn sub_fails ''npm test'' = Exits BeforeTimeout 2 \<and> (2::int) \<noteq> 0"
    using ok by (simp add: command_ok_def sub_fails_def)
  from import_failure [OF p1(1) p2 p3(1) p4 p5, of empty_world, THEN conjunct1, rule_format, OF p6]
  obtain e w' where a: "importRepository sub_fails two_files empty_world = (Throws e, w')"
    "files w' = files empty_world ++ written ''proj'' [(''a.txt'', ''A'')]"
    "spawned w' = spawned empty_world"
    "actions (step (Settle 0 sub_fails empty_world) ?s2) ''i'' =
       Some ((?act two_files)\<lparr>status := Failed, error := Some (error_message e)\<rparr>)"
    unfolding two_files_def by blast
  from import_failure [OF p1(2) q2 p3(2) p4 p5, of empty_world, THEN conjunct2, rule_format, OF q6]
  obtain w'' where b: "importRepository sub_fails one_file empty_world =
       (Throws (Error (''Post-import command failed: '' @ ''npm test'')), w'')"
    "files w'' = files empty_world ++ written ''proj'' [(''a.txt'', ''A'')]"
    "spawned w'' = spawned empty_world @ [''true''] @ [''npm test'']"
    "actions (step (Settle 0 sub_fails empty_world) ?s1) ''i'' =
       Some ((?act one_file)\<lparr>status := Failed,
          error := Some (''Post-import command failed: '' @ ''npm test'')\<rparr>)"
    unfolding one_file_def by blast
  have c1: "files w' ''proj/a.txt'' = Some ''A''" "files w' ''proj/sub/b.txt'' = None"
    "files w'' ''proj/a.txt'' = Some ''A''"
    by (simp_all add: a(2) b(2) written_def empty_world_def)
  have c2: "spawned w' = []" "spawned w'' = [''true'', ''npm test'']"
    by (simp_all add: a(3) b(3) empty_world_def)
  have c3: "map_option status (actions (step (Settle 0 sub_fails empty_world) ?s2) ''i'') = Some Failed"
    by (simp add: a(4) del: run.simps step.simps)
  have c4: "actions (step (Settle 0 sub_fails empty_world) ?s1) ''i'' =
     Some \<lparr>descriptor = one_file, status = Failed, executed = True, aborted = False,
       error = Some ''Post-import command failed: npm test''\<rparr>"
    by (simp add: b(4) del: run.simps step.simps)
  have r: "\<And>a e. run [AddAction ''i'' a, RunAction ''i'' a, Microtask, Microtask, e] new_runner =
     step e (run [AddAction ''i'' a, RunAction ''i'' a, Microtask, Microtask] new_runner)"
    by simp
  show ?thesis
    unfolding r using a(1) b(1) c1 c2 c3 c4 by (simp del: run.simps step.simps)
qed

section \<open>The artifact registry: registration\<close>

lemma addArtifact_present: "artifacts wb m \<noteq> None \<Longrightarrow> addArtifact m t i wb = wb"
  by (auto simp add: addArtifact_def split: option.splits)

lemma addArtifact_registers: "artifacts (addArtifact m t i wb) m \<noteq> None"
  by (simp add: addArtifact_def split: option.splits)

text \<open>
  C8. Registering an artifact id a second time changes nothing: the workbench after the
  second \<^verbatim>\<open>addArtifact\<close> is the workbench after the first, so no second runner is created
  and title, closed flag and runner of the first registration stay. The same holds for any
  workbench in which the id is present (for instance after \<^verbatim>\<open>updateArtifact\<close> closed it).
\<close>

theorem addArtifact_idempotent:
  "addArtifact m t2 i2 (addArtifact m t1 i1 wb) = addArtifact m t1 i1 wb \<and>
   (artifacts wb m \<noteq> None \<longrightarrow> addArtifact m t2 i2 wb = wb) \<and>
   (artifacts wb m = None \<longrightarrow>
      length (runners (addArtifact m t2 i2 (addArtifact m t1 i1 wb))) = Suc (length (runners wb)) \<and>
      artifacts (addArtifact m t2 i2 (addArtifact m t1 i1 wb)) m =
        Some \<lparr>artifact_id = i1, title = t1, closed = False, runner = length (runners wb)\<rparr>)"
proof -
  have a: "addArtifact m t2 i2 (addArtifact m t1 i1 wb) = addArtifact m t1 i1 wb"
    by (rule addArtifact_present) (rule addArtifact_registers)
  show ?thesis unfolding a
    by (auto simp add: addArtifact_present) (simp_all add: addArtifact_def)
qed

theorem addArtifact_idempotent_witness:
  "addArtifact ''m1'' ''Second'' ''y'' (addArtifact ''m1'' ''First'' ''x'' new_workbench) =
     addArtifact ''m1'' ''First'' ''x'' new_workbench \<and>
   length (runners (addArtifact ''m1'' ''Second'' ''y'' (addArtifact ''m1'' ''First'' ''x'' new_workbench))) = 1 \<and>
   artifacts (addArtifact ''m1'' ''Second'' ''y'' (addArtifact ''m1'' ''First'' ''x'' new_workbench)) ''m1'' =
     Some \<lparr>artifact_id = ''x'', title = ''First'', closed = False, runner = 0\<rparr> \<and>
   addArtifact ''m1'' ''Second'' ''y''
     (updateArtifact ''m1'' (None, Some True) (addArtifact ''m1'' ''First'' ''x'' new_workbench)) =
     updateArtifact ''m1'' (None, Some True) (addArtifact ''m1'' ''First'' ''x'' new_workbench)"
proof -
  let ?w1 = "addArtifact ''m1'' ''First'' ''x'' new_workbench"
  let ?u = "updateArtifact ''m1'' (None, Some True) ?w1"
  have n: "artifacts new_workbench ''m1'' = None" and l: "length (runners new_workbench) = 0"
    by (simp_all add: new_workbench_def)
  have u: "artifacts ?u ''m1'' \<noteq> None"
    by (simp add: updateArtifact_def addArtifact_def new_workbench_def)
  note a = addArtifact_idempotent [of "''m1''" "''Second''" "''y''" "''First''" "''x''" new_workbench]
  note b = addArtifact_idempotent [of "''m1''" "''Second''" "''y''" "''First''" "''x''" ?u]
  from a have 1: "addArtifact ''m1'' ''Second'' ''y'' ?w1 = ?w1" by (rule conjunct1)
  from a n have 2: "length (runners (addArtifact ''m1'' ''Second'' ''y'' ?w1)) = Suc (length (runners new_workbench))"
    and 3: "artifacts (addArtifact ''m1'' ''Second'' ''y'' ?w1) ''m1'' =
      Some \<lparr>artifact_id = ''x'', title = ''First'', closed = False, runner = length (runners new_workbench)\<rparr>"
    by blast+
  from b u have 4: "addArtifact ''m1'' ''Second'' ''y'' ?u = ?u" by blast
  from 1 2 3 4 l show ?thesis by simp
qed

section \<open>The action store: frame\<close>

lemma in_flight_then_attach [simp]: "in_flight (then_attach p r s) = in_flight s"
  by (simp add: then_attach_def split: promise.splits)
lemma in_flight_settle_promise [simp]: "in_flight (settle_promise p out s) = in_flight s"
  by (simp add: settle_promise_def split: promise.splits)
lemma in_flight_updateAction [simp]: "in_flight (updateAction i f s) = in_flight s"
  by (simp add: updateAction_def split: option.splits)

lemma addAction_other: "j \<noteq> i \<Longrightarrow> actions (addAction i a s) j = actions s j"
  by (simp add: addAction_def split: option.splits)
lemma runAction_other: "j \<noteq> i \<Longrightarrow> actions (snd (runAction i a s)) j = actions s j"
  by (simp add: runAction_def Let_def split: option.splits)
lemma abort_other: "j \<noteq> i \<Longrightarrow> actions (abort i s) j = actions s j"
  by (simp add: abort_def)
lemma executeAction_begin_other: "j \<noteq> i \<Longrightarrow> actions (executeAction_begin i q s) j = actions s j"
  by (simp add: executeAction_begin_def split: option.splits)
lemma executeAction_end_other: "j \<noteq> i \<Longrightarrow> actions (executeAction_end i q c s) j = actions s j"
  by (simp add: executeAction_end_def split: completion.splits)
lemma run_reaction_frame: "\<exists>i. \<forall>j. j \<noteq> i \<longrightarrow> actions (run_reaction m s) j = actions s j"
proof (cases m)
  case (Pair r out)
  show ?thesis
  proof (cases r)
    case (MarkRunning i)
    with Pair show ?thesis by (cases out) (auto intro!: exI [of _ i])
  next
    case (ThenExecute i q)
    with Pair show ?thesis
      by (cases out) (auto intro!: exI [of _ i] simp add: executeAction_begin_other)
  next
    case (CatchLog p)
    with Pair show ?thesis by simp
  qed
qed

lemma step_frame: "\<exists>i. \<forall>j. j \<noteq> i \<longrightarrow> actions (step e s) j = actions s j"
proof (cases e)
  case (AddAction i a)
  then show ?thesis by (auto intro!: exI [of _ i] simp add: addAction_other)
next
  case (RunAction i a)
  then show ?thesis by (auto intro!: exI [of _ i] simp add: runAction_other)
next
  case (Abort i)
  then show ?thesis by (auto intro!: exI [of _ i] simp add: abort_other)
next
  case Microtask
  show ?thesis
  proof (cases "microtasks s")
    case Nil
    with Microtask show ?thesis by simp
  next
    case (Cons m ms)
    from run_reaction_frame [of m "s\<lparr>microtasks := ms\<rparr>"] Microtask Cons show ?thesis by simp
  qed
next
  case (Settle k sb w)
  show ?thesis
  proof (cases "k < length (in_flight s)")
    case False
    with Settle show ?thesis by simp
  next
    case True
    obtain i a q where f: "in_flight s ! k = (i, a, q)" by (cases "in_flight s ! k")
    with Settle True show ?thesis
      by (auto intro!: exI [of _ i] simp add: executeAction_end_other split: completion.splits)
  qed
qed

text \<open>
  C10. Every operation on action id \<open>i\<close> (\<^verbatim>\<open>addAction\<close>, \<^verbatim>\<open>runAction\<close>, \<^verbatim>\<open>abort\<close>,
  \<^verbatim>\<open>#updateAction\<close> with any update, the scheduled running-update, the start and the end
  of \<^verbatim>\<open>#executeAction\<close>) leaves the record of every other id as it was; and every step
  of the runner changes the record of at most one id.
\<close>

theorem store_frame:
  "\<forall>j. j \<noteq> i \<longrightarrow>
     actions (addAction i a s) j = actions s j \<and>
     actions (snd (runAction i a s)) j = actions s j \<and>
     actions (abort i s) j = actions s j \<and>
     actions (updateAction i f s) j = actions s j \<and>
     actions (run_reaction (MarkRunning i, out) s) j = actions s j \<and>
     actions (executeAction_begin i q s) j = actions s j \<and>
     actions (executeAction_end i q c s) j = actions s j \<and>
     (\<exists>i'. \<forall>j'. j' \<noteq> i' \<longrightarrow> actions (step e s) j' = actions s j')"
  using step_frame [of e s]
  by (cases out) (simp_all add: addAction_other runAction_other abort_other
      executeAction_begin_other executeAction_end_other)


theorem store_frame_witness:
  "actions (abort ''a'' (addAction ''b'' (ShellAction ''ls'')
      (addAction ''a'' (ShellAction ''pwd'') new_runner))) ''b'' =
   Some \<lparr>descriptor = ShellAction ''ls'', status = Pending, executed = False, aborted = False,
     error = None\<rparr>"
proof -
  let ?s = "addAction ''b'' (ShellAction ''ls'') (addAction ''a'' (ShellAction ''pwd'') new_runner)"
  have ne: "''b'' \<noteq> ''a''" by simp
  from store_frame [of "''a''" _ ?s, THEN spec, of "''b''"] ne
  have "actions (abort ''a'' ?s) ''b'' = actions ?s ''b''" by blast
  also have "actions ?s ''b'' = Some \<lparr>descriptor = ShellAction ''ls'', status = Pending,
     executed = False, aborted = False, error = None\<rparr>"
    by (simp add: eval_defs)
  finally show ?thesis .
qed

section \<open>The execution chain: every step keeps a shape\<close>

lemma linked_bounds: "linked ps cur p ts \<Longrightarrow> p \<le> cur \<and> cur < length ps"
  by (induction rule: linked.induct) auto

lemma linked_unsettled: "linked ps cur p ts \<Longrightarrow> \<exists>rs. ps ! p = Unsettled rs"
  by (induction rule: linked.induct) auto

lemma linked_update_below:
  "linked ps cur p ts \<Longrightarrow> k < p \<Longrightarrow> linked (ps[k := v]) cur p ts"
proof (induction rule: linked.induct)
  case (last ms)
  then show ?case by (auto intro: linked.last)
next
  case (link p q p' ms x ts)
  then show ?case by (auto intro!: linked.link)
qed

lemma linked_attach_mark:
  "linked ps cur p ts \<Longrightarrow> ps ! cur = Unsettled rs \<Longrightarrow>
   linked (ps[cur := Unsettled (rs @ [MarkRunning x])]) cur p (ts @ [TMark x])"
proof (induction rule: linked.induct)
  case (last ms)
  then have "linked (ps[cur := Unsettled (rs @ [MarkRunning x])]) cur cur (map TMark (ms @ [x]))"
    by (intro linked.last) auto
  then show ?case by simp
next
  case (link p q p' ms y ts)
  from link.hyps(5) have "p' \<le> cur" by (simp add: linked_bounds)
  with link have "linked (ps[cur := Unsettled (rs @ [MarkRunning x])]) cur p
      (map TMark ms @ TExec y # (ts @ [TMark x]))"
    by (intro linked.link) auto
  then show ?case by simp
qed

lemma linked_attach_exec:
  "linked ps cur p ts \<Longrightarrow> ps ! cur = Unsettled rs \<Longrightarrow>
   linked ((ps @ [Unsettled [CatchLog (Suc (length ps))], Unsettled []])
             [cur := Unsettled (rs @ [ThenExecute x (length ps)])])
     (Suc (length ps)) p (ts @ [TExec x])"
proof (induction rule: linked.induct)
  case (last ms)
  let ?ps = "(ps @ [Unsettled [CatchLog (Suc (length ps))], Unsettled []])
             [cur := Unsettled (rs @ [ThenExecute x (length ps)])]"
  have e: "linked ?ps (Suc (length ps)) (Suc (length ps)) (map TMark [])"
    using last by (intro linked.last) (auto simp add: nth_append)
  from last have "linked ?ps (Suc (length ps)) cur (map TMark ms @ TExec x # map TMark [])"
    by (intro linked.link [where q = "length ps" and p' = "Suc (length ps)"] e)
       (auto simp add: nth_append)
  then show ?case by simp
next
  case (link p q p' ms y ts)
  let ?ps = "(ps @ [Unsettled [CatchLog (Suc (length ps))], Unsettled []])
             [cur := Unsettled (rs @ [ThenExecute x (length ps)])]"
  from link.hyps(5) have b: "p' \<le> cur" "cur < length ps" by (simp_all add: linked_bounds)
  with link have "linked ?ps (Suc (length ps)) p (map TMark ms @ TExec y # (ts @ [TExec x]))"
    by (intro linked.link [where q = q and p' = p']) (auto simp add: nth_append)
  then show ?case by simp
qed

lemma linked_cur_unsettled:
  "linked ps cur p ts \<Longrightarrow> \<exists>ms. ps ! cur = Unsettled (map MarkRunning ms)"
  by (induction rule: linked.induct) auto

lemma updateAction_fields [simp]:
  "promises (updateAction i f s) = promises s"
  "currentExecutionPromise (updateAction i f s) = currentExecutionPromise s"
  "microtasks (updateAction i f s) = microtasks s"
  by (simp_all add: updateAction_def split: option.splits)

lemma shape_cong:
  assumes "shape s ts" and "promises s' = promises s"
    and "currentExecutionPromise s' = currentExecutionPromise s"
    and "microtasks s' = microtasks s" and "in_flight s' = in_flight s"
  shows "shape s' ts"
  using assms
proof (cases rule: shape.cases)
  case (idle ms)
  with assms show ?thesis by (auto intro: shape.idle)
next
  case (flushed ms x q p ts')
  with assms show ?thesis by (auto intro: shape.flushed)
next
  case (running x a q p)
  with assms show ?thesis by (auto intro: shape.running)
next
  case (settled p out)
  with assms show ?thesis by (auto intro: shape.settled)
qed

lemma shape_updateAction: "shape s ts \<Longrightarrow> shape (updateAction i f s) ts"
  by (erule shape_cong) simp_all

lemma marks_snoc: "marks (ms @ [i]) = marks ms @ [(MarkRunning i, None)]"
  by (simp add: marks_def)

lemma shape_then_attach_mark:
  assumes "shape s ts"
  shows "shape (then_attach (currentExecutionPromise s) (MarkRunning i) s) (ts @ [TMark i])"
  using assms
proof (cases rule: shape.cases)
  case (idle ms)
  then have "shape (then_attach (currentExecutionPromise s) (MarkRunning i) s) (map TMark (ms @ [i]))"
    by (intro shape.idle) (simp_all add: then_attach_def marks_snoc)
  with idle show ?thesis by simp
next
  case (flushed ms x q p ts')
  from flushed(6) obtain rs where rs: "promises s ! currentExecutionPromise s = Unsettled (map MarkRunning rs)"
    by (auto dest: linked_cur_unsettled)
  from flushed(6) have b: "p \<le> currentExecutionPromise s" "currentExecutionPromise s < length (promises s)"
    by (simp_all add: linked_bounds)
  from flushed rs b
  have "shape (then_attach (currentExecutionPromise s) (MarkRunning i) s)
      (map TMark ms @ TExec x # (ts' @ [TMark i]))"
    by (intro shape.flushed [where q = q and p = p])
       (auto simp add: then_attach_def intro: linked_attach_mark)
  with flushed show ?thesis by simp
next
  case (running x a q p)
  from running(5) obtain rs where rs: "promises s ! currentExecutionPromise s = Unsettled (map MarkRunning rs)"
    by (auto dest: linked_cur_unsettled)
  from running(5) have b: "p \<le> currentExecutionPromise s" "currentExecutionPromise s < length (promises s)"
    by (simp_all add: linked_bounds)
  from running rs b show ?thesis
    by (intro shape.running [where q = q and p = p and x = x and a = a])
       (auto simp add: then_attach_def intro: linked_attach_mark)
next
  case (settled p out)
  from settled(3) obtain rs where rs: "promises s ! currentExecutionPromise s = Unsettled (map MarkRunning rs)"
    by (auto dest: linked_cur_unsettled)
  from settled(3) have b: "p \<le> currentExecutionPromise s" "currentExecutionPromise s < length (promises s)"
    by (simp_all add: linked_bounds)
  from settled rs b show ?thesis
    by (intro shape.settled [where p = p and out = out])
       (auto simp add: then_attach_def intro: linked_attach_mark)
qed

lemma shape_addAction: "shape s ts \<Longrightarrow> shape (addAction i a s) (next_tasks (AddAction i a) s ts)"
proof (cases "actions s i")
  case None
  assume "shape s ts"
  then have "shape (s\<lparr>actions := (actions s)(i \<mapsto>
       \<lparr>descriptor = a, status = Pending, executed = False, aborted = False, error = None\<rparr>)\<rparr>) ts"
    by (rule shape_cong) simp_all
  from shape_then_attach_mark [OF this, of i] None show ?thesis
    by (simp add: addAction_def)
next
  case (Some act)
  assume "shape s ts"
  with Some show ?thesis by (simp add: addAction_def)
qed

lemma dispatch_fulfilled:
  assumes "currentExecutionPromise s < length (promises s)"
    and "promises s ! currentExecutionPromise s = Fulfilled"
  shows "dispatch i s =
     s\<lparr>promises := promises s @ [Unsettled [CatchLog (Suc (length (promises s)))], Unsettled []],
       microtasks := microtasks s @ [(ThenExecute i (length (promises s)), None)],
       currentExecutionPromise := Suc (length (promises s))\<rparr>"
  using assms by (simp add: dispatch_def then_attach_def nth_append)

lemma dispatch_unsettled:
  assumes "currentExecutionPromise s < length (promises s)"
    and "promises s ! currentExecutionPromise s = Unsettled rs"
  shows "dispatch i s =
     s\<lparr>promises := (promises s @ [Unsettled [CatchLog (Suc (length (promises s)))], Unsettled []])
          [currentExecutionPromise s := Unsettled (rs @ [ThenExecute i (length (promises s))])],
       currentExecutionPromise := Suc (length (promises s))\<rparr>"
  using assms by (simp add: dispatch_def then_attach_def nth_append)

lemma shape_dispatch:
  assumes "shape s ts"
  shows "shape (dispatch i s) (ts @ [TExec i])"
  using assms
proof (cases rule: shape.cases)
  case (idle ms)
  let ?Q = "length (promises s)"
  note d = dispatch_fulfilled [OF idle(3,4), of i]
  have "linked (promises s @ [Unsettled [CatchLog (Suc ?Q)], Unsettled []]) (Suc ?Q) (Suc ?Q)
      (map TMark [])"
    by (intro linked.last) (simp_all add: nth_append)
  then have l: "linked (promises (dispatch i s)) (currentExecutionPromise (dispatch i s)) (Suc ?Q)
      (map TMark [])"
    by (simp add: d)
  from idle have "shape (dispatch i s) (map TMark ms @ TExec i # map TMark [])"
    by (intro shape.flushed [where q = ?Q and p = "Suc ?Q"] l) (simp_all add: d nth_append)
  with idle show ?thesis by simp
next
  case (flushed ms x q p ts')
  from flushed(6) obtain rs where rs: "promises s ! currentExecutionPromise s = Unsettled (map MarkRunning rs)"
    by (auto dest: linked_cur_unsettled)
  from flushed(6) have b: "p \<le> currentExecutionPromise s" "currentExecutionPromise s < length (promises s)"
    by (simp_all add: linked_bounds)
  note d = dispatch_unsettled [OF b(2) rs, of i]
  from linked_attach_exec [OF flushed(6) rs, of i] flushed rs b
  have "shape (dispatch i s) (map TMark ms @ TExec x # (ts' @ [TExec i]))"
    by (intro shape.flushed [where q = q and p = p]) (auto simp add: d nth_append)
  with flushed show ?thesis by simp
next
  case (running x a q p)
  from running(5) obtain rs where rs: "promises s ! currentExecutionPromise s = Unsettled (map MarkRunning rs)"
    by (auto dest: linked_cur_unsettled)
  from running(5) have b: "p \<le> currentExecutionPromise s" "currentExecutionPromise s < length (promises s)"
    by (simp_all add: linked_bounds)
  note d = dispatch_unsettled [OF b(2) rs, of i]
  from linked_attach_exec [OF running(5) rs, of i] running rs b show ?thesis
    by (intro shape.running [where q = q and p = p and x = x and a = a])
       (auto simp add: d nth_append)
next
  case (settled p out)
  from settled(3) obtain rs where rs: "promises s ! currentExecutionPromise s = Unsettled (map MarkRunning rs)"
    by (auto dest: linked_cur_unsettled)
  from settled(3) have b: "p \<le> currentExecutionPromise s" "currentExecutionPromise s < length (promises s)"
    by (simp_all add: linked_bounds)
  note d = dispatch_unsettled [OF b(2) rs, of i]
  from linked_attach_exec [OF settled(3) rs, of i] settled rs b show ?thesis
    by (intro shape.settled [where p = p and out = out]) (auto simp add: d nth_append)
qed

lemma shape_runAction:
  assumes "shape s ts"
  shows "shape (snd (runAction i a s)) (next_tasks (RunAction i a) s ts)"
proof (cases "actions s i")
  case None
  with assms show ?thesis by (simp add: runAction_def)
next
  case (Some act)
  show ?thesis
  proof (cases "executed act")
    case True
    with Some assms show ?thesis by (simp add: runAction_def)
  next
    case False
    let ?s1 = "updateAction i (\<lambda>_. act\<lparr>descriptor := a, executed := True\<rparr>) s"
    from assms have "shape ?s1 ts" by (rule shape_updateAction)
    from shape_dispatch [OF this, of i] Some False show ?thesis
      by (simp add: runAction_def Let_def dispatch_def)
  qed
qed

lemma shape_abort: "shape s ts \<Longrightarrow> shape (abort i s) (next_tasks (Abort i) s ts)"
  by (simp add: abort_def shape_updateAction)

lemma settle_promise_unsettled:
  assumes "p < length (promises s)" and "promises s ! p = Unsettled rs"
  shows "settle_promise p out s =
     s\<lparr>promises := (promises s)[p := (case out of None \<Rightarrow> Fulfilled | Some e \<Rightarrow> Rejected e)],
       microtasks := microtasks s @ map (\<lambda>r. (r, out)) rs\<rparr>"
  using assms by (simp add: settle_promise_def)

lemma marks_Cons: "marks (m # ms) = (MarkRunning m, None) # marks ms"
  by (simp add: marks_def)

lemma shape_catch:
  assumes "in_flight s = []" and "microtasks s = []"
    and "linked (promises s) (currentExecutionPromise s) p ts"
  shows "shape (settle_promise p None s) ts"
  using assms(3)
proof (cases rule: linked.cases)
  case (last ms)
  then have pl: "currentExecutionPromise s < length (promises s)"
    and pu: "promises s ! currentExecutionPromise s = Unsettled (map MarkRunning ms)"
    by simp_all
  note d = settle_promise_unsettled [OF pl pu, of None]
  from last assms(1,2) have "shape (settle_promise p None s) (map TMark ms)"
    by (intro shape.idle) (simp_all add: d marks_def)
  with last show ?thesis by simp
next
  case (link q p' ms x ts')
  from link(6) have b: "p' \<le> currentExecutionPromise s" "currentExecutionPromise s < length (promises s)"
    by (simp_all add: linked_bounds)
  with link have pl: "p < length (promises s)" by simp
  note d = settle_promise_unsettled [OF pl link(4), of None]
  from link have "linked ((promises s)[p := Fulfilled]) (currentExecutionPromise s) p' ts'"
    by (intro linked_update_below) simp_all
  with link assms(1,2) b have "shape (settle_promise p None s) (map TMark ms @ TExec x # ts')"
    by (intro shape.flushed [where q = q and p = p']) (simp_all add: d marks_def)
  with link show ?thesis by simp
qed

lemma shape_microtask:
  assumes "shape s ts" and "\<forall>i. TExec i \<in> set ts \<longrightarrow> actions s i \<noteq> None"
  shows "shape (step Microtask s) (next_tasks Microtask s ts)"
  using assms(1)
proof (cases rule: shape.cases)
  case (idle ms)
  show ?thesis
  proof (cases ms)
    case Nil
    with idle assms(1) show ?thesis by (simp add: marks_def)
  next
    case (Cons m ms')
    from idle Cons have "shape (updateAction m (\<lambda>a. a\<lparr>status := Running\<rparr>) (s\<lparr>microtasks := marks ms'\<rparr>))
        (map TMark ms')"
      by (intro shape_updateAction shape.idle) simp_all
    with idle Cons show ?thesis by (simp add: marks_Cons)
  qed
next
  case (flushed ms x q p ts')
  show ?thesis
  proof (cases ms)
    case Nil
    from assms(2) flushed obtain act where act: "actions s x = Some act" by auto
    let ?s' = "executeAction_begin x q (s\<lparr>microtasks := []\<rparr>)"
    from flushed act have "shape ?s' ts'"
      by (intro shape.running [where x = x and a = "descriptor act" and q = q and p = p])
         (simp_all add: executeAction_begin_def)
    with flushed Nil show ?thesis by (simp add: marks_def)
  next
    case (Cons m ms')
    from flushed Cons have "shape (updateAction m (\<lambda>a. a\<lparr>status := Running\<rparr>)
          (s\<lparr>microtasks := marks ms' @ [(ThenExecute x q, None)]\<rparr>))
        (map TMark ms' @ TExec x # ts')"
      by (intro shape_updateAction shape.flushed [where q = q and p = p]) simp_all
    with flushed Cons show ?thesis by (simp add: marks_Cons)
  qed
next
  case (running x a q p)
  with assms(1) show ?thesis by simp
next
  case (settled p out)
  have "shape (settle_promise p None (s\<lparr>microtasks := []\<rparr>)) ts"
    using settled by (intro shape_catch) simp_all
  with settled show ?thesis by simp
qed

lemma shape_settle:
  assumes "shape s ts"
  shows "shape (step (Settle k sb w) s) (next_tasks (Settle k sb w) s ts)"
  using assms
proof (cases rule: shape.cases)
  case (idle ms)
  with assms show ?thesis by simp
next
  case (flushed ms x q p ts')
  with assms show ?thesis by simp
next
  case (settled p out)
  with assms show ?thesis by simp
next
  case (running x a q p)
  from running(5) have b: "p \<le> currentExecutionPromise s" "currentExecutionPromise s < length (promises s)"
    by (simp_all add: linked_bounds)
  with running have ql: "q < length (promises s)" by simp
  have e: "shape (settle_promise q out (updateAction x f (s\<lparr>in_flight := []\<rparr>))) ts" for out f
  proof -
    let ?u = "updateAction x f (s\<lparr>in_flight := []\<rparr>)"
    have "settle_promise q out ?u =
       ?u\<lparr>promises := (promises ?u)[q := (case out of None \<Rightarrow> Fulfilled | Some e \<Rightarrow> Rejected e)],
          microtasks := microtasks ?u @ map (\<lambda>r. (r, out)) [CatchLog p]\<rparr>"
      using ql running by (intro settle_promise_unsettled) simp_all
    moreover have "linked ((promises s)[q := (case out of None \<Rightarrow> Fulfilled | Some e \<Rightarrow> Rejected e)])
        (currentExecutionPromise s) p ts"
      using running by (intro linked_update_below) simp_all
    ultimately show ?thesis
      using running by (intro shape.settled [where p = p and out = out]) simp_all
  qed
  show ?thesis
  proof (cases "k = 0")
    case False
    with running assms show ?thesis by simp
  next
    case True
    show ?thesis
    proof (cases "fst (run_handler sb a w)")
      case Returns
      with True running e show ?thesis by (simp add: executeAction_end_def)
    next
      case (Throws err)
      with True running e show ?thesis by (simp add: executeAction_end_def)
    next
      case NeverSettles
      with True running assms show ?thesis by simp
    qed
  qed
qed

lemma shape_step:
  assumes "shape s ts" and "\<forall>i. TExec i \<in> set ts \<longrightarrow> actions s i \<noteq> None"
  shows "shape (step e s) (next_tasks e s ts)"
proof (cases e)
  case (AddAction i a)
  with shape_addAction [OF assms(1)] show ?thesis by simp
next
  case (RunAction i a)
  with shape_runAction [OF assms(1)] show ?thesis by simp
next
  case (Abort i)
  with shape_abort [OF assms(1)] show ?thesis by simp
next
  case Microtask
  with shape_microtask [OF assms] show ?thesis by simp
next
  case (Settle k sb w)
  with shape_settle [OF assms(1)] show ?thesis by simp
qed

section \<open>The queue and the store: an invariant of every run\<close>

lemma tasks_of_simps [simp]:
  "tasks_of [] = {}"
  "tasks_of (TMark i # ts) = insert i (tasks_of ts)"
  "tasks_of (TExec i # ts) = insert i (tasks_of ts)"
  "tasks_of (ts @ us) = tasks_of ts \<union> tasks_of us"
  by (auto simp add: tasks_of_def)

lemma ordered_snoc_mark: "ordered (ts @ [TMark i]) \<longleftrightarrow> ordered ts \<and> TExec i \<notin> set ts"
  by (induction ts rule: ordered.induct) auto

lemma ordered_snoc_exec: "ordered (ts @ [TExec i]) \<longleftrightarrow> ordered ts \<and> TExec i \<notin> set ts"
  by (induction ts rule: ordered.induct) auto

lemma ordered_tl: "ordered ts \<Longrightarrow> ordered (tl ts)"
  by (cases ts rule: ordered.cases) auto

lemma exec_ids_append [simp]: "exec_ids (ts @ us) = exec_ids ts @ exec_ids us"
  by (induction ts rule: exec_ids.induct) auto

lemma exec_ids_marks [simp]: "exec_ids (map TMark ms) = []"
  by (induction ms) auto

lemma exec_ids_execs [simp]: "exec_ids (map TExec is) = is"
  by (induction "is") auto


text \<open>The invariants under the changes a step makes.\<close>

lemma qinv_add:
  assumes "qinv A ts F" and "A i = None" and "\<not> executed r"
  shows "qinv (A(i \<mapsto> r)) (ts @ [TMark i]) F"
proof -
  from assms(1,2) have "i \<notin> tasks_of ts" "i \<notin> F" by (auto simp add: qinv_def)
  with assms show ?thesis
    by (auto simp add: qinv_def ordered_snoc_mark tasks_of_def)
qed

lemma sinv_add:
  assumes "sinv A ts F" and "qinv A ts F" and "A i = None" and "status r = Pending"
  shows "sinv (A(i \<mapsto> r)) (ts @ [TMark i]) F"
proof -
  from assms(2,3) have "i \<notin> tasks_of ts" "i \<notin> F" by (auto simp add: qinv_def)
  with assms show ?thesis
    unfolding sinv_def by (auto simp add: tasks_of_def)
qed

lemma qinv_dispatch:
  assumes "qinv A ts F" and "A i = Some act" and "\<not> executed act" and "executed r"
  shows "qinv (A(i \<mapsto> r)) (ts @ [TExec i]) F"
  using assms by (auto simp add: qinv_def ordered_snoc_exec tasks_of_def)

lemma sinv_dispatch:
  assumes "sinv A ts F" and "A i = Some act" and "\<not> executed act"
    and "status r = status act" and "aborted r = aborted act"
  shows "sinv (A(i \<mapsto> r)) (ts @ [TExec i]) F"
  using assms unfolding sinv_def by (auto simp add: tasks_of_def)

lemma qinv_update:
  assumes "qinv A ts F" and "A i = Some act" and "executed r = executed act"
  shows "qinv (A(i \<mapsto> r)) ts F"
  using assms by (auto simp add: qinv_def)

lemma sinv_abort:
  assumes "sinv A ts F" and "A i = Some act" and "aborted r" and "status r = Aborted"
  shows "sinv (A(i \<mapsto> r)) ts F"
  using assms unfolding sinv_def by auto

lemma qinv_tl: "qinv A ts F \<Longrightarrow> qinv A (tl ts) F"
  by (cases ts rule: ordered.cases) (auto simp add: qinv_def)

lemma sinv_running:
  assumes "sinv A (t # ts) F" and "A i = Some act" and "t = TMark i \<or> t = TExec i"
    and "status r = Running" and "aborted r = aborted act"
  shows "sinv (A(i \<mapsto> r)) ts (insert i F)" and "sinv (A(i \<mapsto> r)) ts F"
  using assms unfolding sinv_def by (auto simp add: tasks_of_def)

lemma qinv_begin:
  assumes "qinv A (TExec i # ts) {}" and "A i = Some act" and "executed r = executed act"
  shows "qinv (A(i \<mapsto> r)) ts {i}"
  using assms by (auto simp add: qinv_def tasks_of_def)

lemma qinv_end:
  assumes "qinv A ts {i}" and "A i = Some act" and "executed r = executed act"
  shows "qinv (A(i \<mapsto> r)) ts {}"
  using assms by (auto simp add: qinv_def)

lemma sinv_end:
  assumes "sinv A ts {i}" and "qinv A ts {i}" and "A i = Some act"
    and "aborted r = aborted act" and "status r = Aborted \<longrightarrow> aborted act"
    and "executed r = executed act"
  shows "sinv (A(i \<mapsto> r)) ts {}"
proof -
  from assms(2,3) have "i \<notin> tasks_of ts" "executed act" by (auto simp add: qinv_def)
  with assms show ?thesis unfolding sinv_def by auto
qed

lemma shape_heads:
  assumes "shape s ts" and "microtasks s = m # ms"
  shows "(\<exists>i ts'. m = (MarkRunning i, None) \<and> ts = TMark i # ts') \<or>
     (\<exists>i q ts'. m = (ThenExecute i q, None) \<and> ms = [] \<and> in_flight s = [] \<and> ts = TExec i # ts') \<or>
     (\<exists>p out. m = (CatchLog p, out) \<and> ms = [] \<and> in_flight s = [])"
  using assms(1)
proof (cases rule: shape.cases)
  case (idle ms')
  with assms(2) show ?thesis by (cases ms') (auto simp add: marks_def)
next
  case (flushed ms' x q p ts')
  with assms(2) show ?thesis by (cases ms') (auto simp add: marks_def)
next
  case (running x a q p)
  with assms(2) show ?thesis by simp
next
  case (settled p out)
  with assms(2) show ?thesis by auto
qed

lemma shape_in_flight:
  assumes "shape s ts"
  shows "in_flight s = [] \<or> (\<exists>x a q. in_flight s = [(x, a, q)] \<and> microtasks s = [])"
  using assms by (cases rule: shape.cases) auto

lemma flying_simps [simp]:
  "flying (then_attach p r s) = flying s"
  "flying (settle_promise p out s) = flying s"
  "flying (updateAction i f s) = flying s"
  "flying (s\<lparr>microtasks := ms\<rparr>) = flying s"
  "flying (s\<lparr>actions := A\<rparr>) = flying s"
  "flying (s\<lparr>promises := ps\<rparr>) = flying s"
  "flying (s\<lparr>currentExecutionPromise := c\<rparr>) = flying s"
  "flying (s\<lparr>in_flight := fl\<rparr>) = fst ` set fl"
  by (simp_all add: flying_def)

lemma inv_addAction:
  assumes "runner_inv s ts"
  shows "runner_inv (addAction i a s) (next_tasks (AddAction i a) s ts)"
proof (cases "actions s i")
  case (Some act)
  with assms show ?thesis by (simp add: addAction_def)
next
  case None
  let ?r = "\<lparr>descriptor = a, status = Pending, executed = False, aborted = False, error = None\<rparr>"
  from assms have sh: "shape s ts" and q: "qinv (actions s) ts (flying s)"
    and st: "sinv (actions s) ts (flying s)" by (simp_all add: runner_inv_def)
  have a: "actions (addAction i a s) = (actions s)(i \<mapsto> ?r)" and f: "flying (addAction i a s) = flying s"
    using None by (simp_all add: addAction_def)
  from shape_addAction [OF sh, of i a] qinv_add [OF q None, of ?r] sinv_add [OF st q None, of ?r] None
  show ?thesis by (simp add: runner_inv_def a f)
qed

lemma inv_runAction:
  assumes "runner_inv s ts"
  shows "runner_inv (snd (runAction i a s)) (next_tasks (RunAction i a) s ts)"
proof (cases "actions s i")
  case None
  with assms show ?thesis by (simp add: runAction_def)
next
  case (Some act)
  show ?thesis
  proof (cases "executed act")
    case True
    with Some assms show ?thesis by (simp add: runAction_def)
  next
    case False
    let ?r = "act\<lparr>descriptor := a, executed := True\<rparr>"
    from assms have sh: "shape s ts" and q: "qinv (actions s) ts (flying s)"
      and st: "sinv (actions s) ts (flying s)" by (simp_all add: runner_inv_def)
    have a: "actions (snd (runAction i a s)) = (actions s)(i \<mapsto> ?r)"
      and f: "flying (snd (runAction i a s)) = flying s"
      using Some False by (simp_all add: runAction_def Let_def)
    from shape_runAction [OF sh, of i a] qinv_dispatch [OF q Some False, of ?r]
      sinv_dispatch [OF st Some False, of ?r] Some False
    show ?thesis by (simp add: runner_inv_def a f)
  qed
qed

lemma actions_abort:
  "actions (abort i s) =
     (case actions s i of None \<Rightarrow> actions s
      | Some act \<Rightarrow> (actions s)(i \<mapsto> act\<lparr>aborted := True, status := Aborted\<rparr>))"
  by (simp add: abort_def updateAction_def split: option.splits)

lemma inv_abort:
  assumes "runner_inv s ts"
  shows "runner_inv (abort i s) (next_tasks (Abort i) s ts)"
proof (cases "actions s i")
  case None
  with assms show ?thesis by (simp add: abort_def updateAction_def)
next
  case (Some act)
  let ?r = "act\<lparr>aborted := True, status := Aborted\<rparr>"
  from assms have sh: "shape s ts" and q: "qinv (actions s) ts (flying s)"
    and st: "sinv (actions s) ts (flying s)" by (simp_all add: runner_inv_def)
  have a: "actions (abort i s) = (actions s)(i \<mapsto> ?r)" and f: "flying (abort i s) = flying s"
    using Some by (simp_all add: actions_abort) (simp add: abort_def)
  from shape_abort [OF sh, of i] qinv_update [OF q Some, of ?r] sinv_abort [OF st Some, of ?r]
  show ?thesis by (simp add: runner_inv_def a f)
qed

lemma qinv_known: "qinv A ts F \<Longrightarrow> \<forall>i. TExec i \<in> set ts \<longrightarrow> A i \<noteq> None"
  by (auto simp add: qinv_def tasks_of_def)

lemma inv_microtask:
  assumes "runner_inv s ts"
  shows "runner_inv (step Microtask s) (next_tasks Microtask s ts)"
proof (cases "microtasks s")
  case Nil
  with assms show ?thesis by simp
next
  case (Cons m ms)
  from assms have sh: "shape s ts" and q: "qinv (actions s) ts (flying s)"
    and st: "sinv (actions s) ts (flying s)" by (simp_all add: runner_inv_def)
  note sh' = shape_microtask [OF sh qinv_known [OF q]]
  from shape_heads [OF sh Cons] consider
    (mark) i ts' where "m = (MarkRunning i, None)" "ts = TMark i # ts'"
  | (exec) i q' ts' where "m = (ThenExecute i q', None)" "ms = []" "in_flight s = []" "ts = TExec i # ts'"
  | (catch) p out where "m = (CatchLog p, out)" "ms = []" "in_flight s = []"
    by blast
  then show ?thesis
  proof cases
    case mark
    from q mark obtain act where act: "actions s i = Some act" by (auto simp add: qinv_def)
    let ?r = "act\<lparr>status := Running\<rparr>"
    have a: "actions (step Microtask s) = (actions s)(i \<mapsto> ?r)"
      and f: "flying (step Microtask s) = flying s" and n: "next_tasks Microtask s ts = ts'"
      using Cons mark act by simp_all
    from q have "qinv (actions s) ts' (flying s)" using qinv_tl [of _ ts] mark by auto
    from qinv_update [OF this act, of ?r] have q': "qinv ((actions s)(i \<mapsto> ?r)) ts' (flying s)"
      by simp
    from st mark have "sinv (actions s) (TMark i # ts') (flying s)" by simp
    from sinv_running(2) [OF this act, of ?r] have st': "sinv ((actions s)(i \<mapsto> ?r)) ts' (flying s)"
      by simp
    from q' st' sh' show ?thesis
      by (simp add: runner_inv_def a f n del: step.simps next_tasks.simps)
  next
    case exec
    from q exec obtain act where act: "actions s i = Some act" by (auto simp add: qinv_def)
    let ?r = "act\<lparr>status := Running\<rparr>"
    have fl: "flying s = {}" using exec by (simp add: flying_def)
    have a: "actions (step Microtask s) = (actions s)(i \<mapsto> ?r)"
      and f: "flying (step Microtask s) = {i}" and n: "next_tasks Microtask s ts = ts'"
      using Cons exec act by (simp_all add: executeAction_begin_def flying_def)
    from q exec fl have "qinv (actions s) (TExec i # ts') {}" by simp
    from qinv_begin [OF this act, of ?r] have q': "qinv ((actions s)(i \<mapsto> ?r)) ts' {i}"
      by simp
    from st exec fl have "sinv (actions s) (TExec i # ts') {}" by simp
    from sinv_running(1) [OF this act, of ?r] have st': "sinv ((actions s)(i \<mapsto> ?r)) ts' {i}"
      by simp
    from q' st' sh' show ?thesis
      by (simp add: runner_inv_def a f n del: step.simps next_tasks.simps)
  next
    case catch
    have a: "actions (step Microtask s) = actions s"
      and f: "flying (step Microtask s) = flying s" and n: "next_tasks Microtask s ts = ts"
      using Cons catch by simp_all
    from q st sh' show ?thesis
      by (simp add: runner_inv_def a f n del: step.simps next_tasks.simps)
  qed
qed

lemma inv_settle:
  assumes "runner_inv s ts"
  shows "runner_inv (step (Settle k sb w) s) (next_tasks (Settle k sb w) s ts)"
proof -
  from assms have sh: "shape s ts" and q: "qinv (actions s) ts (flying s)"
    and st: "sinv (actions s) ts (flying s)" by (simp_all add: runner_inv_def)
  note sh' = shape_settle [OF sh, of k sb w]
  from shape_in_flight [OF sh] consider "in_flight s = []"
    | x a q' where "in_flight s = [(x, a, q')]" by blast
  then show ?thesis
  proof cases
    case 1
    with assms show ?thesis by simp
  next
    case 2
    then have fl: "flying s = {x}" by (simp add: flying_def)
    with q obtain act where act: "actions s x = Some act" by (auto simp add: qinv_def)
    show ?thesis
    proof (cases "k = 0 \<and> fst (run_handler sb a w) \<noteq> NeverSettles")
      case False
      with 2 assms show ?thesis by (auto split: completion.splits)
    next
      case True
      define r where "r = (case fst (run_handler sb a w) of
          Returns \<Rightarrow> act\<lparr>status := (if aborted act then Aborted else Complete)\<rparr>
        | Throws e \<Rightarrow> act\<lparr>status := Failed, error := Some (error_message e)\<rparr>
        | NeverSettles \<Rightarrow> act)"
      have a: "actions (step (Settle k sb w) s) = (actions s)(x \<mapsto> r)"
        and f: "flying (step (Settle k sb w) s) = {}"
        using True 2 act
        by (auto simp add: executeAction_end_def r_def flying_def split: completion.splits)
      have r: "executed r = executed act" "aborted r = aborted act" "status r = Aborted \<longrightarrow> aborted act"
        using True by (auto simp add: r_def split: completion.splits)
      from qinv_end [of "actions s" ts x act r] sinv_end [of "actions s" ts x act r]
        q st fl act r sh' show ?thesis
        by (simp add: runner_inv_def a f del: step.simps)
    qed
  qed
qed

lemma inv_step:
  assumes "runner_inv s ts"
  shows "runner_inv (step e s) (next_tasks e s ts)"
proof (cases e)
  case (AddAction i a)
  with inv_addAction [OF assms] show ?thesis by simp
next
  case (RunAction i a)
  with inv_runAction [OF assms] show ?thesis by simp
next
  case (Abort i)
  with inv_abort [OF assms] show ?thesis by simp
next
  case Microtask
  with inv_microtask [OF assms] show ?thesis by simp
next
  case (Settle k sb w)
  with inv_settle [OF assms] show ?thesis by simp
qed

lemma inv_new_runner: "runner_inv new_runner []"
proof -
  have "shape new_runner (map TMark [])"
    by (intro shape.idle) (simp_all add: new_runner_def marks_def)
  then show ?thesis
    by (simp add: runner_inv_def qinv_def sinv_def new_runner_def flying_def)
qed

lemma inv_run: "runner_inv s ts \<Longrightarrow> \<exists>ts'. runner_inv (run es s) ts'"
proof (induction es arbitrary: s ts)
  case Nil
  then show ?case by auto
next
  case (Cons e es)
  from Cons.IH [OF inv_step [OF Cons.prems]] show ?case by simp
qed

lemma inv_reachable: "\<exists>ts. runner_inv (run es new_runner) ts"
  using inv_run [OF inv_new_runner] .

text \<open>
  In every run the id of the microtask to run next, and every id in flight, has a record.
\<close>

lemma records_exist:
  "(\<forall>i out ms. microtasks (run es new_runner) = (MarkRunning i, out) # ms \<longrightarrow>
      actions (run es new_runner) i \<noteq> None) \<and>
   (\<forall>i q out ms. microtasks (run es new_runner) = (ThenExecute i q, out) # ms \<longrightarrow>
      actions (run es new_runner) i \<noteq> None) \<and>
   (\<forall>i a q. (i, a, q) \<in> set (in_flight (run es new_runner)) \<longrightarrow>
      actions (run es new_runner) i \<noteq> None)"
proof -
  from inv_reachable [of es] obtain ts where
    sh: "shape (run es new_runner) ts"
    and q: "qinv (actions (run es new_runner)) ts (flying (run es new_runner))"
    by (auto simp add: runner_inv_def)
  have known: "actions (run es new_runner) i \<noteq> None"
    if "i \<in> tasks_of ts \<or> i \<in> flying (run es new_runner)" for i
    using q that unfolding qinv_def by blast
  show ?thesis
  proof (intro conjI allI impI)
    fix i out ms
    assume "microtasks (run es new_runner) = (MarkRunning i, out) # ms"
    from shape_heads [OF sh this] show "actions (run es new_runner) i \<noteq> None"
      by (intro known) auto
  next
    fix i q out ms
    assume "microtasks (run es new_runner) = (ThenExecute i q, out) # ms"
    from shape_heads [OF sh this] show "actions (run es new_runner) i \<noteq> None"
      by (intro known) auto
  next
    fix i a q
    assume "(i, a, q) \<in> set (in_flight (run es new_runner))"
    then have "i \<in> flying (run es new_runner)" by (force simp add: flying_def)
    then show "actions (run es new_runner) i \<noteq> None" by (intro known) simp
  qed
qed

section \<open>Handlers begin in the order of dispatch\<close>

lemma order_step:
  assumes "runner_inv s ts"
  shows "exec_ids ts @ dispatches e s = begins e s @ exec_ids (next_tasks e s ts)"
proof (cases e)
  case (AddAction i a)
  then show ?thesis by simp
next
  case (RunAction i a)
  then show ?thesis by (simp split: option.splits)
next
  case (Abort i)
  then show ?thesis by simp
next
  case (Settle k sb w)
  then show ?thesis by simp
next
  case Microtask
  from assms have sh: "shape s ts" and q: "qinv (actions s) ts (flying s)"
    by (simp_all add: runner_inv_def)
  show ?thesis
  proof (cases "microtasks s")
    case Nil
    with Microtask show ?thesis by simp
  next
    case (Cons m ms)
    from shape_heads [OF sh Cons] consider
      (mark) i ts' where "m = (MarkRunning i, None)" "ts = TMark i # ts'"
    | (exec) i q' ts' where "m = (ThenExecute i q', None)" "ts = TExec i # ts'"
    | (catch) p out where "m = (CatchLog p, out)"
      by blast
    then show ?thesis
    proof cases
      case mark
      with Microtask Cons show ?thesis by simp
    next
      case exec
      with q have "actions s i \<noteq> None" by (auto simp add: qinv_def)
      with Microtask Cons exec show ?thesis by simp
    next
      case catch
      with Microtask Cons show ?thesis by simp
    qed
  qed
qed

lemma order_run:
  "runner_inv s ts \<Longrightarrow>
   \<exists>ts'. runner_inv (run es s) ts' \<and> exec_ids ts @ dispatched es s = began es s @ exec_ids ts'"
proof (induction es arbitrary: s ts)
  case Nil
  then show ?case by auto
next
  case (Cons e es)
  from Cons.IH [OF inv_step [OF Cons.prems], of e] obtain ts' where
    t: "runner_inv (run es (step e s)) ts'"
       "exec_ids (next_tasks e s ts) @ dispatched es (step e s) = began es (step e s) @ exec_ids ts'"
    by blast
  have "exec_ids ts @ dispatched (e # es) s =
      (exec_ids ts @ dispatches e s) @ dispatched es (step e s)" by simp
  also have "\<dots> = begins e s @ (exec_ids (next_tasks e s ts) @ dispatched es (step e s))"
    by (simp add: order_step [OF Cons.prems])
  also have "\<dots> = began (e # es) s @ exec_ids ts'" by (simp add: t(2))
  finally show ?case using t(1) by auto
qed

lemma began_dispatched:
  "\<exists>ts. runner_inv (run es new_runner) ts \<and>
     dispatched es new_runner = began es new_runner @ exec_ids ts"
  using order_run [OF inv_new_runner, of es] by simp

lemma step_keeps_record:
  assumes "actions s i = Some act"
  shows "\<exists>act'. actions (step e s) i = Some act' \<and> (executed act \<longrightarrow> executed act') \<and>
     (aborted act \<longrightarrow> aborted act')"
proof (cases e)
  case (AddAction j a)
  with assms show ?thesis by (auto simp add: addAction_def split: option.splits)
next
  case (RunAction j a)
  with assms show ?thesis
    by (cases "j = i") (auto simp add: runAction_def Let_def split: option.splits)
next
  case (Abort j)
  with assms show ?thesis by (cases "j = i") (auto simp add: actions_abort split: option.splits)
next
  case Microtask
  show ?thesis
  proof (cases "microtasks s")
    case Nil
    with Microtask assms show ?thesis by simp
  next
    case (Cons m ms)
    obtain r out where m: "m = (r, out)" by (cases m)
    show ?thesis
    proof (cases r)
      case (MarkRunning j)
      with Microtask Cons m assms show ?thesis
        by (cases out; cases "j = i") (auto simp add: actions_updateAction split: option.splits)
    next
      case (ThenExecute j q)
      with Microtask Cons m assms show ?thesis
        by (cases out; cases "j = i")
           (auto simp add: executeAction_begin_def actions_updateAction split: option.splits)
    next
      case (CatchLog p)
      with Microtask Cons m assms show ?thesis by simp
    qed
  qed
next
  case (Settle k sb w)
  show ?thesis
  proof (cases "k < length (in_flight s)")
    case False
    with Settle assms show ?thesis by simp
  next
    case True
    obtain j a q where f: "in_flight s ! k = (j, a, q)" by (cases "in_flight s ! k")
    with Settle True assms show ?thesis
      by (cases "j = i")
         (auto simp add: executeAction_end_def actions_updateAction
            split: completion.splits option.splits)
  qed
qed

lemma dispatched_not_executed:
  "i \<in> set (dispatched es s) \<Longrightarrow> actions s i = Some act \<Longrightarrow> \<not> executed act"
proof (induction es arbitrary: s act)
  case Nil
  then show ?case by simp
next
  case (Cons e es)
  show ?case
  proof
    assume ex: "executed act"
    from step_keeps_record [OF Cons.prems(2), of e] ex obtain act' where
      a: "actions (step e s) i = Some act'" "executed act'" by blast
    from Cons.prems(1) have "i \<in> set (dispatches e s) \<or> i \<in> set (dispatched es (step e s))"
      by simp
    then show False
    proof
      assume "i \<in> set (dispatches e s)"
      with Cons.prems(2) ex show False by (cases e) (auto split: option.splits if_splits)
    next
      assume "i \<in> set (dispatched es (step e s))"
      from Cons.IH [OF this a(1)] a(2) show False by simp
    qed
  qed
qed

lemma dispatches_sets_executed:
  "i \<in> set (dispatches e s) \<Longrightarrow> \<exists>act. actions (step e s) i = Some act \<and> executed act"
  by (cases e) (auto simp add: runAction_def Let_def split: option.splits if_splits)

lemma distinct_dispatched: "distinct (dispatched es s)"
proof (induction es arbitrary: s)
  case Nil
  then show ?case by simp
next
  case (Cons e es)
  have "distinct (dispatches e s)" by (cases e) (auto split: option.splits)
  moreover have "set (dispatches e s) \<inter> set (dispatched es (step e s)) = {}"
    using dispatches_sets_executed dispatched_not_executed by blast
  ultimately show ?case using Cons.IH by simp
qed

lemma distinct_began: "distinct (began es new_runner)"
proof -
  from began_dispatched [of es] obtain ts where
    "dispatched es new_runner = began es new_runner @ exec_ids ts" by blast
  with distinct_dispatched [of es new_runner] show ?thesis by (metis distinct_append)
qed

section \<open>One handler at a time, and progress after a failure\<close>














section \<open>Calling runAction again\<close>

lemma runAction_executed: "actions s i = Some act \<Longrightarrow> executed act \<Longrightarrow> runAction i a s = (None, s)"
  by (simp add: runAction_def)

text \<open>
  C4. \<^verbatim>\<open>runAction\<close> for an id whose record has \<^verbatim>\<open>executed = true\<close> returns at once: the
  promise it returns is fulfilled and the runner (store, promises, microtasks) is exactly
  as before. So in every run each id is dispatched at most once and its handler begins at
  most once.
\<close>

theorem runAction_executed_noop:
  "(\<forall>act. actions s i = Some act \<and> executed act \<longrightarrow> runAction i a s = (None, s)) \<and>
   distinct (dispatched es new_runner) \<and> distinct (began es new_runner)"
  using runAction_executed [of s i _ a] distinct_dispatched [of es new_runner] distinct_began [of es]
  by blast

theorem runAction_executed_noop_witness:
  "actions (run run_twice new_runner) ''a'' =
     Some \<lparr>descriptor = ShellAction ''ls'', status = Complete, executed = True, aborted = False,
       error = None\<rparr> \<and>
   runAction ''a'' (ShellAction ''ls'') (run run_twice new_runner) = (None, run run_twice new_runner) \<and>
   dispatched run_twice new_runner = [''a''] \<and> began run_twice new_runner = [''a'']"
proof -
  have a: "actions (run run_twice new_runner) ''a'' =
     Some \<lparr>descriptor = ShellAction ''ls'', status = Complete, executed = True, aborted = False,
       error = None\<rparr>"
    by (simp add: run_twice_def eval_defs)
  have l: "dispatched run_twice new_runner = [''a'']" "began run_twice new_runner = [''a'']"
    by (simp_all add: run_twice_def eval_defs)
  from runAction_executed_noop [of "run run_twice new_runner" "''a''" "ShellAction ''ls''" run_twice] a
  have "runAction ''a'' (ShellAction ''ls'') (run run_twice new_runner) = (None, run run_twice new_runner)"
    by simp
  with a l show ?thesis by simp
qed

section \<open>The promise runAction returns\<close>



section \<open>Abort before run\<close>



section \<open>The status of a record\<close>

lemma transition_step:
  assumes "runner_inv s ts" and "actions s i = Some r"
  shows "\<exists>r'. actions (step e s) i = Some r' \<and> (aborted r \<longrightarrow> aborted r') \<and>
     (status r' = status r \<or> moves (status r) (status r') \<or>
      (aborted r' \<and> (e = Abort i \<and> status r' = Aborted \<or>
         status r = Aborted \<and> (status r' = Running \<or> status r' = Failed))))"
proof -
  from assms(1) have sh: "shape s ts" and q: "qinv (actions s) ts (flying s)"
    and st: "sinv (actions s) ts (flying s)" by (simp_all add: runner_inv_def)
  have same: ?thesis if "actions (step e s) i = Some r"
    using that by simp
  have running: ?thesis
    if "actions (step e s) i = Some (r\<lparr>status := Running\<rparr>)" and "i \<in> tasks_of ts"
  proof -
    from st assms(2) that(2) have "status r = Pending \<or> status r = Running \<or> status r = Aborted"
      and "status r = Aborted \<longrightarrow> aborted r"
      unfolding sinv_def by blast+
    with that(1) show ?thesis by auto
  qed
  show ?thesis
  proof (cases e)
    case (AddAction j a)
    with assms(2) show ?thesis
      by (intro same) (auto simp add: addAction_def split: option.splits)
  next
    case (RunAction j a)
    with assms(2) show ?thesis
      by (cases "j = i") (auto simp add: runAction_def Let_def split: option.splits)
  next
    case (Abort j)
    with assms(2) show ?thesis
      by (cases "j = i") (auto simp add: actions_abort split: option.splits)
  next
    case Microtask
    show ?thesis
    proof (cases "microtasks s")
      case Nil
      with Microtask assms(2) show ?thesis by (intro same) simp
    next
      case (Cons m ms)
      from shape_heads [OF sh Cons] consider
        (mark) j ts' where "m = (MarkRunning j, None)" "ts = TMark j # ts'"
      | (exec) j q' ts' where "m = (ThenExecute j q', None)" "ts = TExec j # ts'"
      | (catch) p out where "m = (CatchLog p, out)"
        by blast
      then show ?thesis
      proof cases
        case mark
        show ?thesis
        proof (cases "j = i")
          case True
          with Microtask Cons mark assms(2) show ?thesis by (intro running) simp_all
        next
          case False
          with Microtask Cons mark assms(2) show ?thesis by (intro same) simp
        qed
      next
        case exec
        show ?thesis
        proof (cases "j = i")
          case True
          with Microtask Cons exec assms(2) show ?thesis
            by (intro running) (simp_all add: executeAction_begin_def)
        next
          case False
          with Microtask Cons exec assms(2) show ?thesis
            by (intro same) (simp add: executeAction_begin_def split: option.splits)
        qed
      next
        case catch
        with Microtask Cons assms(2) show ?thesis by (intro same) simp
      qed
    qed
  next
    case (Settle k sb w)
    from shape_in_flight [OF sh] consider "in_flight s = []"
      | x a q' where "in_flight s = [(x, a, q')]" by blast
    then show ?thesis
    proof cases
      case 1
      with Settle assms(2) show ?thesis by (intro same) simp
    next
      case 2
      show ?thesis
      proof (cases "k = 0 \<and> x = i \<and> fst (run_handler sb a w) \<noteq> NeverSettles")
        case False
        with Settle 2 assms(2) show ?thesis
          by (intro same)
             (auto simp add: executeAction_end_def split: completion.splits)
      next
        case True
        with 2 have "i \<in> flying s" by (simp add: flying_def)
        with st assms(2) have s: "status r = Running \<or> status r = Aborted"
          "status r = Aborted \<longrightarrow> aborted r"
          unfolding sinv_def by blast+
        from True 2 Settle assms(2) s show ?thesis
          by (cases "fst (run_handler sb a w)") (auto simp add: executeAction_end_def)
      qed
    qed
  qed
qed

lemma new_record:
  assumes "actions s i = None" and "actions (step e s) i = Some r'"
  shows "status r' = Pending \<and> \<not> aborted r'"
proof (cases e)
  case (AddAction j a)
  with assms show ?thesis
    by (cases "j = i") (auto simp add: addAction_def split: option.splits)
next
  case (RunAction j a)
  with assms show ?thesis
    by (cases "j = i") (auto simp add: runAction_def Let_def split: option.splits if_splits)
next
  case (Abort j)
  with assms show ?thesis by (cases "j = i") (auto simp add: actions_abort split: option.splits)
next
  case Microtask
  show ?thesis
  proof (cases "microtasks s")
    case Nil
    with Microtask assms show ?thesis by simp
  next
    case (Cons m ms)
    obtain rc out where m: "m = (rc, out)" by (cases m)
    show ?thesis
    proof (cases rc)
      case (MarkRunning j)
      with Microtask Cons m assms show ?thesis
        by (cases out; cases "j = i") (auto simp add: actions_updateAction split: option.splits)
    next
      case (ThenExecute j q)
      with Microtask Cons m assms show ?thesis
        by (cases out; cases "j = i")
           (auto simp add: executeAction_begin_def actions_updateAction split: option.splits)
    next
      case (CatchLog p)
      with Microtask Cons m assms show ?thesis by simp
    qed
  qed
next
  case (Settle k sb w)
  show ?thesis
  proof (cases "k < length (in_flight s)")
    case False
    with Settle assms show ?thesis by simp
  next
    case True
    obtain j a q where f: "in_flight s ! k = (j, a, q)" by (cases "in_flight s ! k")
    with Settle True assms show ?thesis
      by (cases "j = i")
         (auto simp add: executeAction_end_def actions_updateAction
            split: completion.splits option.splits)
  qed
qed

lemma aborted_status:
  assumes "runner_inv s ts" and "actions s i = Some r" and "status r = Aborted"
  shows "aborted r"
  using assms unfolding runner_inv_def sinv_def by blast

text \<open>
  C1 (as amended). In every run, a step leaves the status of a record as it is, or moves
  it along Pending, Running, then Complete, Aborted or Failed, or, only for a record whose
  abort signal is raised, does one of two further things: \<^verbatim>\<open>abort\<close> itself sets Aborted
  from whatever the status was, and a record that is Aborted is set to Running by its
  scheduled running-update or by its dispatch, or to Failed by its handler's failure. A
  record is created Pending, records are never removed, and the signal is never lowered.
  Only a record whose signal is raised is Aborted. So for a record on which \<^verbatim>\<open>abort\<close> has
  not been called the status moves only along Pending, Running, then Complete or Failed,
  and a Complete or Failed status never changes.
\<close>

theorem status_transitions:
  "(\<forall>r. actions (run es new_runner) i = Some r \<longrightarrow>
      (status r = Aborted \<longrightarrow> aborted r) \<and>
      (\<exists>r'. actions (step e (run es new_runner)) i = Some r' \<and> (aborted r \<longrightarrow> aborted r') \<and>
         (status r' = status r \<or> moves (status r) (status r') \<or>
          (aborted r' \<and> (e = Abort i \<and> status r' = Aborted \<or>
             status r = Aborted \<and> (status r' = Running \<or> status r' = Failed)))))) \<and>
   (actions (run es new_runner) i = None \<longrightarrow>
      (\<forall>r'. actions (step e (run es new_runner)) i = Some r' \<longrightarrow>
         status r' = Pending \<and> \<not> aborted r'))"
proof -
  from inv_reachable [of es] obtain ts where i: "runner_inv (run es new_runner) ts" by blast
  show ?thesis
    using transition_step [OF i, of i _ e] aborted_status [OF i, of i]
      new_record [of "run es new_runner" i e]
    by blast
qed

theorem status_transitions_witness:
  "actions (run [AddAction ''a'' (ShellAction ''false''), RunAction ''a'' (ShellAction ''false''),
      Microtask, Microtask] new_runner) ''a'' =
     Some \<lparr>descriptor = ShellAction ''false'', status = Running, executed = True,
       aborted = False, error = None\<rparr> \<and>
   (\<exists>r'. actions (step (Settle 0 failing_sandbox empty_world)
        (run [AddAction ''a'' (ShellAction ''false''), RunAction ''a'' (ShellAction ''false''),
           Microtask, Microtask] new_runner)) ''a'' = Some r' \<and>
      status r' = Failed \<and> \<not> aborted r' \<and> moves Running (status r'))"
proof -
  let ?es = "[AddAction ''a'' (ShellAction ''false''), RunAction ''a'' (ShellAction ''false''),
      Microtask, Microtask]"
  let ?R = "\<lparr>descriptor = ShellAction ''false'', status = Running, executed = True,
       aborted = False, error = None\<rparr>"
  let ?e = "Settle 0 failing_sandbox empty_world"
  have a: "actions (run ?es new_runner) ''a'' = Some ?R"
    by (simp add: run_started del: run.simps)
  from status_transitions [of ?es "''a''" ?e, THEN conjunct1, rule_format, OF a]
  obtain r' where r': "actions (step ?e (run ?es new_runner)) ''a'' = Some r'"
    "status r' = status ?R \<or> moves (status ?R) (status r') \<or>
      (aborted r' \<and> (?e = Abort ''a'' \<and> status r' = Aborted \<or>
         status ?R = Aborted \<and> (status r' = Running \<or> status r' = Failed)))"
    by blast
  have c: "actions (step ?e (run ?es new_runner)) ''a'' =
     Some \<lparr>descriptor = ShellAction ''false'', status = Failed, executed = True,
       aborted = False, error = Some ''Process failed with exit code 1''\<rparr>"
    unfolding run_started by (simp add: eval_defs)
  from r'(1) c have f: "status r' = Failed" "\<not> aborted r'" by auto
  with r'(2) have "moves Running (status r')" by simp
  with a r'(1) f show ?thesis by (simp del: run.simps step.simps)
qed


text \<open>
  C1 as stated fails: an action aborted while Pending is Aborted and its scheduled
  running-update then sets it to Running; and \<^verbatim>\<open>abort\<close> on a Complete action sets it to
  Aborted.
\<close>

theorem terminal_status_changes:
  "map_option status (actions (run [AddAction ''a'' (ShellAction ''ls''), Abort ''a'']
      new_runner) ''a'') = Some Aborted \<and>
   map_option status (actions (run [AddAction ''a'' (ShellAction ''ls''), Abort ''a'', Microtask]
      new_runner) ''a'') = Some Running \<and>
   map_option status (actions (run [AddAction ''a'' (ShellAction ''ls''),
      RunAction ''a'' (ShellAction ''ls''), Microtask, Microtask,
      Settle 0 working_sandbox empty_world] new_runner) ''a'') = Some Complete \<and>
   map_option status (actions (run [AddAction ''a'' (ShellAction ''ls''),
      RunAction ''a'' (ShellAction ''ls''), Microtask, Microtask,
      Settle 0 working_sandbox empty_world, Abort ''a''] new_runner) ''a'') = Some Aborted"
  by (simp add: eval_defs)

end
